theory Spec2Isabelle
  imports Main "HOL-Library.Multiset" "HOL-Library.Char_ord" "HOL-Library.List_Lexorder"
begin

section \<open>Data model\<close>

text \<open>
  Vertices are JavaScript numbers used as integers; the sentinel \<open>-1\<close> marks a slot of
  an assignment that is not bound yet, so a vertex is an \<open>int\<close>. A hyperedge is an
  array of vertices. A pattern is an array of pattern-variable indices; these index
  into the assignment array, so they are natural numbers. A JavaScript number is a
  binary64 double: the integers that occur as inputs are those a double represents.
\<close>

type_synonym vertex = int
type_synonym edge = "vertex list"
type_synonym pattern = "nat list"

record rule =
  lhs :: "pattern list"
  rhs :: "pattern list"

text \<open>A hit \<open>{ r: i, m: map }\<close>; the field \<open>order\<close> is attached later by the
  scheduler and is \<open>undefined\<close> (\<open>None\<close>) until then.\<close>

record hit =
  hit_r :: nat
  hit_m :: "vertex list"
  hit_order :: "int list option"

datatype error = TypeError | RangeError

section \<open>The hypergraph store\<close>

text \<open>Modelled from the spec: the hypergraph store of \<open>SpatialGraph.mjs\<close>, which is
  not part of the sources. By sections 3 and 6 of the specification it is a multigraph
  of hyperedges: \<open>E\<close> holds one entry per live edge (duplicates are kept), and
  \<open>maxv\<close> is the highest vertex id allocated so far.\<close>

record hypergraph =
  E :: "edge list"
  maxv :: int

text \<open>Modelled from the spec: \<open>graph.clear()\<close>, the \<open>reset()\<close> of the specification,
  clears all edges and resets \<open>maxv\<close>; with
  vertex ids drawn from the non-negative integers the highest allocated id of an empty
  store is taken to be \<open>-1\<close>.\<close>

definition clear :: hypergraph where
  "clear = \<lparr>E = [], maxv = -1\<rparr>"

text \<open>Modelled from the spec: a template position is fixed when it holds a vertex and
  free when it holds the sentinel \<open>-1\<close> that \<open>findMatches\<close> writes into unbound
  slots; the arity must agree.\<close>

definition fits :: "edge \<Rightarrow> edge \<Rightarrow> bool" where
  "fits t e \<longleftrightarrow> length e = length t \<and> list_all (\<lambda>(a, b). a = -1 \<or> a = b) (zip t e)"

text \<open>Modelled from the spec: \<open>graph.find( template )\<close>, the
  \<open>findEdgesMatching\<close> of the specification: all live edges matching a partially
  bound template.\<close>

definition find_edges :: "hypergraph \<Rightarrow> edge \<Rightarrow> edge list" where
  "find_edges g t = filter (fits t) (E g)"

text \<open>Modelled from the spec: \<open>graph.count( edges )\<close>, the \<open>countOccurrences\<close> of
  the specification, the multiplicity of a fully concrete edge set: the number of
  times the whole set can be taken out of the live edges at once, so an edge the set
  needs \<open>k\<close> times counts once per \<open>k\<close> live copies. The empty set has
  multiplicity \<open>0\<close>.\<close>

definition count_edges :: "hypergraph \<Rightarrow> edge list \<Rightarrow> nat" where
  "count_edges g es =
     (if es = [] then 0
      else Min ((\<lambda>e. count_list (E g) e div count_list es e) ` set es))"

text \<open>Modelled from the spec: \<open>graph.rewrite( del, add )\<close>, the \<open>applyDelta\<close> of the
  specification, removes one live copy of each
  edge of \<open>remove\<close> (an absent one is passed over), then adds the edges of \<open>add\<close>,
  and extends \<open>maxv\<close> to the largest vertex id referenced.\<close>

definition rewrite_graph :: "hypergraph \<Rightarrow> edge list \<Rightarrow> edge list \<Rightarrow> hypergraph" where
  "rewrite_graph g del add =
     \<lparr>E = fold remove1 del (E g) @ add,
      maxv = fold max (concat add) (maxv g)\<rparr>"

section \<open>Arithmetic of the host language\<close>

text \<open>The number of binary digits of a positive integer.\<close>

function bit_length :: "int \<Rightarrow> nat" where
  "bit_length n = (if n \<le> 0 then 0 else Suc (bit_length (n div 2)))"
  by pat_completeness auto
termination
  by (relation "measure nat") auto

text \<open>The sum and the difference of two doubles are the exact result rounded to the
  nearest double, ties to the even significand. For an integer result: up to \<open>2^53\<close>
  in magnitude it is exact; beyond, with \<open>b\<close> binary digits, the doubles are the
  multiples of \<open>2^(b - 53)\<close>. A result beyond the largest double (about
  \<open>1.8 * 10^308\<close>) is \<open>Infinity\<close> in JavaScript and is outside the model.\<close>

definition round_double :: "int \<Rightarrow> int" where
  "round_double n =
     (if \<bar>n\<bar> \<le> 9007199254740992 then n
      else
        let q = 2 ^ (bit_length \<bar>n\<bar> - 53);
            sig = \<bar>n\<bar> div q;
            rest = \<bar>n\<bar> mod q;
            sig' = (if q < 2 * rest \<or> (2 * rest = q \<and> odd sig) then sig + 1 else sig)
        in sgn n * (sig' * q))"

definition js_add :: "int \<Rightarrow> int \<Rightarrow> int" where
  "js_add a b = round_double (a + b)"

definition js_sub :: "int \<Rightarrow> int \<Rightarrow> int" where
  "js_sub a b = round_double (a - b)"

section \<open>Pattern Mapper\<close>

text \<open>
  \<^verbatim>\<open>mapper( graph, patterns, map ) {
  return patterns.map( p => p.map( v =>
    ( v < map.length ? map[v] : graph.maxv + ( v - map.length ) + 1 ) ) ); }\<close>
  The fresh vertex is computed in doubles, from left to right:
  \<open>(maxv + (v - map.length)) + 1\<close>.
\<close>

definition mapper :: "hypergraph \<Rightarrow> pattern list \<Rightarrow> vertex list \<Rightarrow> edge list" where
  "mapper graph patterns mp =
     map (\<lambda>p. map (\<lambda>v. if v < length mp then mp ! v
                         else js_add (js_add (maxv graph) (js_sub (int v) (int (length mp)))) 1) p)
       patterns"

section \<open>Strings, sets and sorting of the host language\<close>

text \<open>\<open>Number.prototype.toString\<close> on an integer below \<open>10^21\<close> in magnitude: its
  decimal digits, with a leading minus sign for a negative one. From \<open>10^21\<close> on
  JavaScript writes a number with an exponent; vertex ids of that size are outside
  the model of \<open>toString\<close> and of the comparator-less \<open>sort()\<close> below.\<close>

definition digit :: "nat \<Rightarrow> char" where
  "digit d = char_of (48 + d)"

fun digits :: "nat \<Rightarrow> string" where
  "digits n = (if n < 10 then [digit n] else digits (n div 10) @ [digit (n mod 10)])"

definition toString :: "int \<Rightarrow> string" where
  "toString i = (if i < 0 then CHR ''-'' # digits (nat (- i)) else digits (nat i))"

text \<open>\<open>p.join(",")\<close> on an array of numbers.\<close>

fun join :: "string list \<Rightarrow> string" where
  "join [] = []"
| "join [x] = x"
| "join (x # y # ys) = x @ '','' @ join (y # ys)"

definition join_pattern :: "pattern \<Rightarrow> string" where
  "join_pattern p = join (map (\<lambda>v. toString (int v)) p)"

text \<open>\<open>[ ...new Set( xs ) ]\<close>: the elements of \<open>xs\<close> in the order of their first
  occurrence.\<close>

definition dedup :: "'a list \<Rightarrow> 'a list" where
  "dedup xs = rev (remdups (rev xs))"

text \<open>\<open>xs.sort()\<close> with no comparator: a stable sort that compares the elements as
  strings, code unit by code unit. The strings here are ASCII, so this is the
  lexicographic order of \<open>char list\<close>.\<close>

definition plain_sort :: "int list \<Rightarrow> int list" where
  "plain_sort xs = sort_key toString xs"

text \<open>\<open>xs.sort( cmp )\<close>: the sort is stable, and \<open>cmp(a, b) \<le> 0\<close> keeps \<open>a\<close>
  before \<open>b\<close>. It is modelled by a stable insertion sort.\<close>

fun js_insert :: "('a \<Rightarrow> 'a \<Rightarrow> int) \<Rightarrow> 'a \<Rightarrow> 'a list \<Rightarrow> 'a list" where
  "js_insert cmp x [] = [x]"
| "js_insert cmp x (y # ys) = (if cmp x y \<le> 0 then x # y # ys else y # js_insert cmp x ys)"

definition js_sort :: "('a \<Rightarrow> 'a \<Rightarrow> int) \<Rightarrow> 'a list \<Rightarrow> 'a list" where
  "js_sort cmp xs = foldr (js_insert cmp) xs []"

section \<open>The causal store\<close>

text \<open>Modelled from the spec: the causal store of \<open>CausalGraph.mjs\<close>, which is not
  part of the sources. It is the list of the causal events recorded since the last
  \<open>clear()\<close>; an event has the vertices it consumed, the vertices it produced and the
  step it is stamped with.\<close>

record event =
  consumed :: "vertex list"
  produced :: "vertex list"
  at_step :: nat

type_synonym causal_graph = "event list"

text \<open>Modelled from the spec: \<open>causal.rewrite( match, modified, { step } )\<close>, the
  \<open>recordEvent\<close> of the specification, appends a causal event.\<close>

definition rewrite_causal :: "causal_graph \<Rightarrow> vertex list \<Rightarrow> vertex list \<Rightarrow> nat \<Rightarrow> causal_graph" where
  "rewrite_causal c used made st = c @ [\<lparr>consumed = used, produced = made, at_step = st\<rparr>]"

text \<open>Modelled from the spec: \<open>rankOf(vertex)\<close>, the causal rank labels of a vertex, of
  which the scheduler reads the first (\<open>causal.L.get( v )[0]\<close>). How the store
  computes the labels is not given, so the labelling is a parameter: a function of the
  events recorded so far that yields the first rank of a labelled vertex and \<open>None\<close>
  for a vertex without a label.\<close>

type_synonym labelling = "causal_graph \<Rightarrow> vertex \<Rightarrow> int option"

section \<open>The rewriting system\<close>

text \<open>The fields of \<open>HypergraphRewritingSystem\<close>. The two callbacks are observed
  through \<open>progress\<close>, the arguments of the calls of \<open>progressfn\<close> so far, and
  \<open>finished\<close>, the number of calls of \<open>finishedfn\<close>. The elapsed time
  \<open>duration\<close> is not modelled.\<close>

record hrs =
  spatial :: hypergraph
  causal :: causal_graph
  rules :: "rule list"
  initial :: "edge list"
  step :: nat
  eventcnt :: int
  maxevents :: int
  matches :: "hit list"
  eventordering :: string
  ruleordering :: string
  progress :: "int list"
  finished :: nat

subsection \<open>Match Finder\<close>

text \<open>\<^verbatim>\<open>for( let n = p.length - 1; n >= 0; n-- ) map[ p[n] ] = edge[n];\<close>
  The writes run from the last position to the first, so for a variable that occurs
  twice the first position wins. Every index is below the length of the assignment
  (\<open>maxnum + 1\<close>), and the edge has the arity of the pattern.\<close>

definition bind :: "pattern \<Rightarrow> edge \<Rightarrow> vertex list \<Rightarrow> vertex list" where
  "bind p e mp = fold (\<lambda>(v, x) a. a[v := x]) (rev (zip p e)) mp"

text \<open>One pass of the loop over \<open>j\<close> (lines 79 to 93): every assignment is extended by
  every edge that \<open>graph.find\<close> returns for the pattern substituted under it; both inner
  loops count downwards.\<close>

definition extend :: "hypergraph \<Rightarrow> vertex list list \<Rightarrow> pattern \<Rightarrow> vertex list list" where
  "extend graph maps pattern =
     concat (map (\<lambda>mp. map (\<lambda>e. bind pattern e mp)
                          (rev (find_edges graph (mapper graph [pattern] mp ! 0))))
                 (rev maps))"

text \<open>The body of the loop over the rules for one edge (lines 66 to 97): the hits it
  pushes, or the exception it throws. \<open>rule.lhs[0].length\<close> throws a TypeError when
  \<open>lhs\<close> is empty; \<open>Math.max()\<close> of no arguments is \<open>-Infinity\<close>, and
  \<open>new Array( -Infinity )\<close> throws a RangeError.\<close>

definition rule_hits :: "hypergraph \<Rightarrow> edge \<Rightarrow> nat \<Rightarrow> rule \<Rightarrow> error + hit list" where
  "rule_hits graph edge i rule =
     (case lhs rule of
        [] \<Rightarrow> Inl TypeError
      | p0 # ps \<Rightarrow>
          if length edge \<noteq> length p0 then Inr []
          else if concat (lhs rule) = [] then Inl RangeError
          else
            let maxnum = Max (set (concat (lhs rule)));
                map0 = bind p0 edge (replicate (maxnum + 1) (- 1));
                mapsNext = foldl (extend graph) [map0] ps
            in Inr (concat (map (\<lambda>mp. replicate (count_edges graph (mapper graph (lhs rule) mp))
                                        \<lparr>hit_r = i, hit_m = mp, hit_order = None\<rparr>)
                                (rev mapsNext))))"

text \<open>The two outer loops (lines 61 to 99) over the pairs of a live edge and a rule
  index, pushing onto \<open>this.matches\<close>; an exception leaves the hits pushed so far.\<close>

fun find_loop :: "hypergraph \<Rightarrow> rule list \<Rightarrow> (edge \<times> nat) list \<Rightarrow> hit list
    \<Rightarrow> error option \<times> hit list" where
  "find_loop graph rs [] acc = (None, acc)"
| "find_loop graph rs ((edge, i) # rest) acc =
     (case rule_hits graph edge i (rs ! i) of
        Inl err \<Rightarrow> (Some err, acc)
      | Inr hs \<Rightarrow> find_loop graph rs rest (acc @ hs))"

definition findMatches :: "hypergraph \<Rightarrow> hrs \<Rightarrow> error option \<times> hrs" where
  "findMatches graph s =
     (if rules s = [] then (None, s\<lparr>matches := []\<rparr>)
      else
        let res = find_loop graph (rules s)
                    (List.product (E graph) [0..<length (rules s)]) []
        in (fst res, s\<lparr>matches := snd res\<rparr>))"

subsection \<open>Match Processor\<close>

text \<open>Lines 110 to 115: a pattern of one side is dropped when its \<open>join(",")\<close> is
  among the joined patterns of the other side.\<close>

definition factor :: "rule \<Rightarrow> rule" where
  "factor ru =
     \<lparr>lhs = filter (\<lambda>p. join_pattern p \<notin> set (map join_pattern (rhs ru))) (lhs ru),
      rhs = filter (\<lambda>p. join_pattern p \<notin> set (map join_pattern (lhs ru))) (rhs ru)\<rparr>"

definition rulesNol :: "rule list \<Rightarrow> rule list" where
  "rulesNol rs = map factor rs"

text \<open>Lines 123 to 131, the body of \<open>if ( spatial.count( hit ) )\<close> up to the counter:
  the rewrite of the spatial graph and the event added to the causal graph. \<open>del\<close> and
  \<open>add\<close> are both substituted before the graph is rewritten.\<close>

definition applyHit :: "rule list \<Rightarrow> hit \<Rightarrow> hrs \<Rightarrow> hrs" where
  "applyHit nol h s =
     (let del = mapper (spatial s) (lhs (nol ! hit_r h)) (hit_m h);
          add = mapper (spatial s) (rhs (nol ! hit_r h)) (hit_m h);
          modified = plain_sort (dedup (concat add))
      in s\<lparr>spatial := rewrite_graph (spatial s) del add,
            causal := rewrite_causal (causal s) (hit_m h) modified (step s)\<rparr>)"

text \<open>The loop of lines 118 to 137 over \<open>this.matches\<close>. \<open>this.rules[ i ].lhs\<close> throws a
  TypeError for an index outside \<open>this.rules\<close>. The count is a number, which is truthy
  when it is not zero. The counter is incremented before it is compared with
  \<open>maxevents\<close>.\<close>

fun processLoop :: "rule list \<Rightarrow> hit list \<Rightarrow> hrs \<Rightarrow> error + hrs" where
  "processLoop nol [] s = Inr s"
| "processLoop nol (h # hs) s =
     (if length (rules s) \<le> hit_r h then Inl TypeError
      else if count_edges (spatial s) (mapper (spatial s) (lhs (rules s ! hit_r h)) (hit_m h)) \<noteq> 0
      then
        (let s' = (applyHit nol h s)\<lparr>eventcnt := eventcnt s + 1\<rparr>
         in if maxevents s' \<le> eventcnt s' then Inr s' else processLoop nol hs s')
      else processLoop nol hs s)"

definition processMatches :: "hrs \<Rightarrow> error + hrs" where
  "processMatches s = processLoop (rulesNol (rules s)) (matches s) s"

subsection \<open>Scheduler\<close>

text \<open>Lines 156 to 159, the shuffle. \<open>Math.floor( Math.random() * (i + 1) )\<close> is some
  index from \<open>0\<close> to \<open>i\<close>; the random source is a parameter \<open>rnd\<close> that gives a number
  for each position, reduced modulo \<open>i + 1\<close>.\<close>

definition swap :: "nat \<Rightarrow> nat \<Rightarrow> 'a list \<Rightarrow> 'a list" where
  "swap i j xs = xs[i := xs ! j, j := xs ! i]"

fun shuffle_from :: "(nat \<Rightarrow> nat) \<Rightarrow> nat \<Rightarrow> 'a list \<Rightarrow> 'a list" where
  "shuffle_from rnd 0 xs = xs"
| "shuffle_from rnd (Suc i) xs = shuffle_from rnd i (swap (Suc i) (rnd (Suc i) mod (Suc i + 1)) xs)"

definition shuffle :: "(nat \<Rightarrow> nat) \<Rightarrow> 'a list \<Rightarrow> 'a list" where
  "shuffle rnd xs = shuffle_from rnd (length xs - 1) xs"

text \<open>Lines 161 to 163:
  \<^verbatim>\<open>match.order = match.m.map( v => this.causal.L.get( v )[0] ).sort( (a,b) => b - a );\<close>
  A vertex without a label makes \<open>L.get( v )[0]\<close> throw a TypeError.\<close>

definition order_key :: "(vertex \<Rightarrow> int option) \<Rightarrow> vertex list \<Rightarrow> error + int list" where
  "order_key lab mp =
     (if \<forall>v \<in> set mp. lab v \<noteq> None
      then Inr (js_sort (\<lambda>a b. b - a) (map (\<lambda>v. the (lab v)) mp))
      else Inl TypeError)"

fun attach_order :: "(vertex \<Rightarrow> int option) \<Rightarrow> hit list \<Rightarrow> error + hit list" where
  "attach_order lab [] = Inr []"
| "attach_order lab (h # hs) =
     (case order_key lab (hit_m h) of
        Inl e \<Rightarrow> Inl e
      | Inr k \<Rightarrow>
          (case attach_order lab hs of
             Inl e \<Rightarrow> Inl e
           | Inr hs' \<Rightarrow> Inr (h\<lparr>hit_order := Some k\<rparr> # hs')))"

text \<open>The comparators of lines 165 to 171 and 173 to 179, on the \<open>order\<close> arrays: the
  loop compares position by position up to the shorter length, then the lengths.\<close>

fun ascending_cmp :: "int list \<Rightarrow> int list \<Rightarrow> int" where
  "ascending_cmp (x # xs) (y # ys) = (if x \<noteq> y then y - x else ascending_cmp xs ys)"
| "ascending_cmp xs ys = int (length ys) - int (length xs)"

fun descending_cmp :: "int list \<Rightarrow> int list \<Rightarrow> int" where
  "descending_cmp (x # xs) (y # ys) = (if x \<noteq> y then x - y else descending_cmp xs ys)"
| "descending_cmp xs ys = int (length xs) - int (length ys)"

text \<open>The \<open>order\<close> of a hit; the comparators run only after every hit got one.\<close>

definition order_of :: "hit \<Rightarrow> int list" where
  "order_of h = (case hit_order h of Some k \<Rightarrow> k | None \<Rightarrow> [])"

definition event_order :: "labelling \<Rightarrow> hrs \<Rightarrow> error + hrs" where
  "event_order L s =
     (if eventordering s \<noteq> ''random'' then
        (case attach_order (L (causal s)) (matches s) of
           Inl e \<Rightarrow> Inl e
         | Inr hs \<Rightarrow>
             if eventordering s = ''ascending''
             then Inr (s\<lparr>matches := js_sort (\<lambda>a b. ascending_cmp (order_of a) (order_of b)) hs\<rparr>)
             else if eventordering s = ''descending''
             then Inr (s\<lparr>matches := js_sort (\<lambda>a b. descending_cmp (order_of a) (order_of b)) hs\<rparr>)
             else Inr (s\<lparr>matches := hs\<rparr>))
      else Inr s)"

text \<open>Lines 183 to 189.\<close>

definition rule_order :: "hrs \<Rightarrow> hrs" where
  "rule_order s =
     (if length (rules s) > 1 then
        (if ruleordering s = ''index''
         then s\<lparr>matches := js_sort (\<lambda>a b. int (hit_r a) - int (hit_r b)) (matches s)\<rparr>
         else if ruleordering s = ''indexrev''
         then s\<lparr>matches := js_sort (\<lambda>a b. int (hit_r b) - int (hit_r a)) (matches s)\<rparr>
         else s)
      else s)"

text \<open>One pass of the body of the \<open>do ... while\<close> (lines 148 to 193). The result says
  whether the pass left the loop by a \<open>break\<close>. The random source is indexed by the
  step, so every round has draws of its own.\<close>

definition round :: "labelling \<Rightarrow> (nat \<Rightarrow> nat \<Rightarrow> nat) \<Rightarrow> hrs \<Rightarrow> error + (bool \<times> hrs)" where
  "round L rnd s0 =
     (let s1 = s0\<lparr>step := step s0 + 1\<rparr> in
      case findMatches (spatial s1) s1 of
        (Some e, s2) \<Rightarrow> Inl e
      | (None, s2) \<Rightarrow>
          if matches s2 = [] then Inr (True, s2)
          else
            (case event_order L (s2\<lparr>matches := shuffle (rnd (step s2)) (matches s2)\<rparr>) of
               Inl e \<Rightarrow> Inl e
             | Inr s3 \<Rightarrow>
                 (case processMatches (rule_order s3) of
                    Inl e \<Rightarrow> Inl e
                  | Inr s4 \<Rightarrow> Inr (maxevents s4 \<le> eventcnt s4, s4))))"

text \<open>The \<open>do ... while\<close> of one time slice. The clock is a parameter: \<open>k\<close> is the
  number of rounds after which \<open>performance.now() - start < 500\<close> is still true, so
  the slice runs at most \<open>k + 1\<close> rounds.\<close>

fun slice_loop :: "labelling \<Rightarrow> (nat \<Rightarrow> nat \<Rightarrow> nat) \<Rightarrow> nat \<Rightarrow> hrs \<Rightarrow> error + hrs" where
  "slice_loop L rnd 0 s =
     (case round L rnd s of Inl e \<Rightarrow> Inl e | Inr (brk, s') \<Rightarrow> Inr s')"
| "slice_loop L rnd (Suc k) s =
     (case round L rnd s of
        Inl e \<Rightarrow> Inl e
      | Inr (brk, s') \<Rightarrow> if brk then Inr s' else slice_loop L rnd k s')"

text \<open>What a call of \<open>rewrite\<close> ends in: the finished callback was called, the next
  slice was scheduled with \<open>setTimeout\<close>, or an exception left the timer callback.\<close>

datatype outcome = Finished hrs | Scheduled hrs | Threw error

definition rewrite :: "labelling \<Rightarrow> (nat \<Rightarrow> nat \<Rightarrow> nat) \<Rightarrow> nat \<Rightarrow> hrs \<Rightarrow> outcome" where
  "rewrite L rnd k s =
     (case slice_loop L rnd k s of
        Inl e \<Rightarrow> Threw e
      | Inr s1 \<Rightarrow>
          let s2 = s1\<lparr>progress := progress s1 @ [eventcnt s1]\<rparr>
          in if matches s2 = [] \<or> maxevents s2 \<le> eventcnt s2
             then Finished (s2\<lparr>matches := [], finished := finished s2 + 1\<rparr>)
             else Scheduled (s2\<lparr>matches := []\<rparr>))"

text \<open>Lines 239 to 265, \<open>run\<close>, up to the first \<open>setTimeout\<close>.\<close>

definition run :: "rule list \<Rightarrow> edge list \<Rightarrow> string \<Rightarrow> string \<Rightarrow> int \<Rightarrow> hrs" where
  "run rs init ruleOrdering eventOrdering maxev =
     \<lparr>spatial = rewrite_graph clear [] init,
      causal = rewrite_causal [] [] (plain_sort (dedup (concat init))) 0,
      rules = rs, initial = init, step = 0, eventcnt = 0, maxevents = maxev,
      matches = [], eventordering = eventOrdering, ruleordering = ruleOrdering,
      progress = [], finished = 0\<rparr>"

text \<open>The timer: each \<open>setTimeout( this.rewrite, ... )\<close> starts the next slice. The list
  holds the clock parameter of each slice that the timer gets to start; when it is used
  up the next slice is still pending.\<close>

fun timers :: "labelling \<Rightarrow> (nat \<Rightarrow> nat \<Rightarrow> nat) \<Rightarrow> nat list \<Rightarrow> hrs \<Rightarrow> outcome" where
  "timers L rnd [] s = Scheduled s"
| "timers L rnd (k # ks) s =
     (case rewrite L rnd k s of
        Scheduled s' \<Rightarrow> timers L rnd ks s'
      | Finished s' \<Rightarrow> Finished s'
      | Threw e \<Rightarrow> Threw e)"

definition cancel :: "hrs \<Rightarrow> hrs" where
  "cancel s = s\<lparr>maxevents := 0\<rparr>"

section \<open>Predicates of the statements\<close>


text \<open>A hit is present in a graph when its rule index is inside the rule set and the
  full left-hand side of its rule, substituted under its assignment, has a count other
  than zero: the test of line 121.\<close>

definition present :: "hypergraph \<Rightarrow> rule list \<Rightarrow> hit \<Rightarrow> bool" where
  "present g rs h \<longleftrightarrow> hit_r h < length rs
     \<and> count_edges g (mapper g (lhs (rs ! hit_r h)) (hit_m h)) \<noteq> 0"

text \<open>A state is exhausted when the Match Finder finds no hit in its hypergraph.\<close>

definition exhausted :: "hrs \<Rightarrow> bool" where
  "exhausted s \<longleftrightarrow> matches (snd (findMatches (spatial s) s)) = []"

text \<open>What some rounds of the scheduler do to the state: the rule set, the budget and
  the callbacks' records stay, the counter does not decrease and ends at most at the
  larger of the budget and one more than it was, a round that found hits has counted
  an event, and every counted event has its causal event.\<close>

definition advanced :: "hrs \<Rightarrow> hrs \<Rightarrow> bool" where
  "advanced s s' \<longleftrightarrow>
     rules s' = rules s \<and> maxevents s' = maxevents s \<and> finished s' = finished s
     \<and> progress s' = progress s \<and> eventordering s' = eventordering s
     \<and> eventcnt s \<le> eventcnt s' \<and> eventcnt s' \<le> max (eventcnt s + 1) (maxevents s)
     \<and> (matches s' \<noteq> [] \<longrightarrow> eventcnt s < eventcnt s')
     \<and> (matches s' = [] \<longrightarrow> exhausted s')
     \<and> (\<not> exhausted s \<longrightarrow> eventcnt s < eventcnt s')
     \<and> int (length (causal s')) - eventcnt s' = int (length (causal s)) - eventcnt s"

text \<open>A state is safe for a labelling when no slice started in it can throw: every
  rule has a pattern of non-zero arity in its left-hand side (the precondition of
  section 7 of the specification), and either the event ordering is random or every
  vertex has a label.\<close>

definition safe :: "labelling \<Rightarrow> hrs \<Rightarrow> bool" where
  "safe L s \<longleftrightarrow> list_all (\<lambda>ru. concat (lhs ru) \<noteq> []) (rules s)
     \<and> (eventordering s = ''random'' \<or> (\<forall>c v. L c v \<noteq> None))"

section \<open>Example inputs\<close>

text \<open>The rule \<open>(x,x,y)(y,z,u) -> (x,v,u)(y,v,z)(v,v,u)\<close> of the README, with the
  variables numbered in the order \<open>x, y, z, u, v\<close>, and its initial state
  \<open>(1,1,2)(2,2,3)(3,3,4)\<close>.\<close>

definition readme_rule :: rule where
  "readme_rule = \<lparr>lhs = [[0, 0, 1], [1, 2, 3]], rhs = [[0, 4, 3], [1, 4, 2], [4, 4, 3]]\<rparr>"

definition readme_initial :: "edge list" where
  "readme_initial = [[1, 1, 2], [2, 2, 3], [3, 3, 4]]"

text \<open>A labelling with the first ranks \<open>5\<close>, \<open>7\<close> and \<open>3\<close> for the vertices
  \<open>1\<close>, \<open>2\<close> and \<open>3\<close>, and three hits over these vertices.\<close>

definition example_ranks :: labelling where
  "example_ranks c v =
     (if v = 1 then Some 5 else if v = 2 then Some 7 else if v = 3 then Some 3 else None)"

definition example_hits :: "hit list" where
  "example_hits =
     [\<lparr>hit_r = 0, hit_m = [1], hit_order = None\<rparr>,
      \<lparr>hit_r = 1, hit_m = [1, 3], hit_order = None\<rparr>,
      \<lparr>hit_r = 0, hit_m = [2], hit_order = None\<rparr>]"

definition example_state :: hrs where
  "example_state = (run [readme_rule, readme_rule] readme_initial ''mixed'' ''ascending'' 5)
     \<lparr>step := 1, matches := example_hits\<rparr>"

text \<open>A random source whose every draw is \<open>0\<close>, and the state in which the run of the
  README example with a budget of \<open>n\<close> events (\<open>n\<close> at most one) calls the
  finished callback under that source: the match \<open>x=2, y=3, z=3, u=4\<close> was applied.\<close>

definition draw_first :: "nat \<Rightarrow> nat \<Rightarrow> nat" where
  "draw_first st i = 0"

definition readme_final :: "int \<Rightarrow> hrs" where
  "readme_final n =
     \<lparr>spatial = \<lparr>E = [[1, 1, 2], [2, 5, 4], [3, 5, 3], [5, 5, 4]], maxv = 5\<rparr>,
      causal = [\<lparr>consumed = [], produced = [1, 2, 3, 4], at_step = 0\<rparr>,
                \<lparr>consumed = [2, 3, 3, 4], produced = [2, 3, 4, 5], at_step = 1\<rparr>],
      rules = [readme_rule], initial = readme_initial, step = 1, eventcnt = 1,
      maxevents = n, matches = [], eventordering = ''random'', ruleordering = ''mixed'',
      progress = [1], finished = 1\<rparr>"

text \<open>The state of the README example, started with a budget of five events, after
  the hit \<open>x=1, y=2, z=2, u=3\<close> was applied in step one: the edges \<open>(1,1,2)\<close> and
  \<open>(2,2,3)\<close> are gone.\<close>

definition after_first :: hrs where
  "after_first =
     \<lparr>spatial = \<lparr>E = [[3, 3, 4], [1, 5, 3], [2, 5, 2], [5, 5, 3]], maxv = 5\<rparr>,
      causal = [\<lparr>consumed = [], produced = [1, 2, 3, 4], at_step = 0\<rparr>,
                \<lparr>consumed = [1, 2, 2, 3], produced = [1, 2, 3, 5], at_step = 1\<rparr>],
      rules = [readme_rule], initial = readme_initial, step = 1, eventcnt = 1,
      maxevents = 5, matches = [], eventordering = ''random'', ruleordering = ''mixed'',
      progress = [], finished = 0\<rparr>"

section \<open>Properties of the Pattern Mapper\<close>

lemma mapper_length [simp]: "length (mapper g ps mp) = length ps"
  by (simp add: mapper_def)

lemma mapper_Nil [simp]: "mapper g [] mp = []"
  by (simp add: mapper_def)







section \<open>Properties of the Match Processor\<close>

lemma factor_same: "lhs ru = rhs ru \<Longrightarrow> factor ru = \<lparr>lhs = [], rhs = []\<rparr>"
  by (simp add: factor_def)

lemma factor_lhs_drops: "p \<in> set (rhs ru) \<Longrightarrow> p \<notin> set (lhs (factor ru))"
  by (auto simp: factor_def)

lemma factor_rhs_drops: "p \<in> set (lhs ru) \<Longrightarrow> p \<notin> set (rhs (factor ru))"
  by (auto simp: factor_def)

lemma rewrite_graph_Nil [simp]: "rewrite_graph g [] [] = g"
  by (simp add: rewrite_graph_def)

lemma applyHit_empty_delta:
  assumes "nol ! hit_r h = \<lparr>lhs = [], rhs = []\<rparr>"
  shows "spatial (applyHit nol h s) = spatial s"
  using assms by (simp add: applyHit_def Let_def)

text \<open>
  C7. For a rule whose two sides are structurally equal the factored delta is empty on
  both sides, and applying a hit of such a rule leaves the hypergraph as it is: no
  edge is removed and none is added.
\<close>

theorem factoring_equal_sides:
  assumes "hit_r h < length (rules s)" and "lhs (rules s ! hit_r h) = rhs (rules s ! hit_r h)"
  shows "rulesNol (rules s) ! hit_r h = \<lparr>lhs = [], rhs = []\<rparr>
     \<and> spatial (applyHit (rulesNol (rules s)) h s) = spatial s"
proof -
  have "rulesNol (rules s) ! hit_r h = \<lparr>lhs = [], rhs = []\<rparr>"
    using assms by (simp add: rulesNol_def factor_same)
  then show ?thesis by (simp add: applyHit_empty_delta)
qed

theorem factoring_equal_sides_witness:
  "rulesNol (rules (run [\<lparr>lhs = [[0, 1], [1, 2]], rhs = [[0, 1], [1, 2]]\<rparr>] [[1, 2], [2, 3]]
        ''mixed'' ''random'' 5)) ! 0 = \<lparr>lhs = [], rhs = []\<rparr>
   \<and> spatial (applyHit
        (rulesNol (rules (run [\<lparr>lhs = [[0, 1], [1, 2]], rhs = [[0, 1], [1, 2]]\<rparr>] [[1, 2], [2, 3]]
            ''mixed'' ''random'' 5)))
        \<lparr>hit_r = 0, hit_m = [1, 2, 3], hit_order = None\<rparr>
        (run [\<lparr>lhs = [[0, 1], [1, 2]], rhs = [[0, 1], [1, 2]]\<rparr>] [[1, 2], [2, 3]] ''mixed'' ''random'' 5))
     = \<lparr>E = [[1, 2], [2, 3]], maxv = 3\<rparr>"
proof -
  let ?ru = "\<lparr>lhs = [[0, 1], [1, 2]], rhs = [[0, 1], [1, 2]]\<rparr> :: rule"
  let ?s = "run [?ru] [[1, 2], [2, 3]] ''mixed'' ''random'' 5"
  let ?h = "\<lparr>hit_r = 0, hit_m = [1, 2, 3], hit_order = None\<rparr>"
  have inside: "hit_r ?h < length (rules ?s)"
    by (simp add: run_def)
  have same: "lhs (rules ?s ! hit_r ?h) = rhs (rules ?s ! hit_r ?h)"
    by (simp add: run_def)
  have graph: "spatial ?s = \<lparr>E = [[1, 2], [2, 3]], maxv = 3\<rparr>"
    by (simp add: run_def rewrite_graph_def clear_def)
  show ?thesis
    using factoring_equal_sides [OF inside same] graph by simp
qed

text \<open>
  C10. The factoring of common parts ignores multiplicity: a pattern that occurs in the
  right-hand side is removed from every one of its occurrences in the left-hand side,
  and the other way round. For \<open>lhs = [P, P]\<close>, \<open>rhs = [P]\<close> the delta is empty on
  both sides, and applying a hit of that rule removes no edge.
\<close>

theorem factoring_ignores_multiplicity:
  "(p \<in> set (rhs ru) \<longrightarrow> p \<notin> set (lhs (factor ru)))
   \<and> (p \<in> set (lhs ru) \<longrightarrow> p \<notin> set (rhs (factor ru)))
   \<and> factor \<lparr>lhs = [P, P], rhs = [P]\<rparr> = \<lparr>lhs = [], rhs = []\<rparr>
   \<and> (hit_r h < length (rules s) \<and> rules s ! hit_r h = \<lparr>lhs = [P, P], rhs = [P]\<rparr>
        \<longrightarrow> E (spatial (applyHit (rulesNol (rules s)) h s)) = E (spatial s))"
proof -
  have f: "factor \<lparr>lhs = [P, P], rhs = [P]\<rparr> = \<lparr>lhs = [], rhs = []\<rparr>"
    by (simp add: factor_def)
  have "E (spatial (applyHit (rulesNol (rules s)) h s)) = E (spatial s)"
    if "hit_r h < length (rules s)" and "rules s ! hit_r h = \<lparr>lhs = [P, P], rhs = [P]\<rparr>"
  proof -
    have "rulesNol (rules s) ! hit_r h = \<lparr>lhs = [], rhs = []\<rparr>"
      using that f by (simp add: rulesNol_def)
    then show ?thesis by (simp add: applyHit_empty_delta)
  qed
  then show ?thesis
    using f factor_lhs_drops factor_rhs_drops by blast
qed

theorem factoring_ignores_multiplicity_witness:
  "[0, 1] \<in> set (rhs \<lparr>lhs = [[0, 1], [0, 1], [1, 1]], rhs = [[0, 1], [1, 1], [1, 1]]\<rparr>)
   \<and> [1, 1] \<in> set (lhs \<lparr>lhs = [[0, 1], [0, 1], [1, 1]], rhs = [[0, 1], [1, 1], [1, 1]]\<rparr>)
   \<and> [0, 1] \<notin> set (lhs (factor \<lparr>lhs = [[0, 1], [0, 1], [1, 1]], rhs = [[0, 1], [1, 1], [1, 1]]\<rparr>))
   \<and> [1, 1] \<notin> set (rhs (factor \<lparr>lhs = [[0, 1], [0, 1], [1, 1]], rhs = [[0, 1], [1, 1], [1, 1]]\<rparr>))
   \<and> E (spatial (applyHit
        (rulesNol (rules (run [\<lparr>lhs = [[0, 1], [0, 1]], rhs = [[0, 1]]\<rparr>] [[1, 2], [1, 2]]
            ''mixed'' ''random'' 5)))
        \<lparr>hit_r = 0, hit_m = [1, 2], hit_order = None\<rparr>
        (run [\<lparr>lhs = [[0, 1], [0, 1]], rhs = [[0, 1]]\<rparr>] [[1, 2], [1, 2]] ''mixed'' ''random'' 5)))
     = [[1, 2], [1, 2]]"
proof -
  let ?ru = "\<lparr>lhs = [[0, 1], [0, 1], [1, 1]], rhs = [[0, 1], [1, 1], [1, 1]]\<rparr> :: rule"
  let ?s = "run [\<lparr>lhs = [[0, 1], [0, 1]], rhs = [[0, 1]]\<rparr>] [[1, 2], [1, 2]] ''mixed'' ''random'' 5"
  let ?h = "\<lparr>hit_r = 0, hit_m = [1, 2], hit_order = None\<rparr>"
  have a: "[0, 1] \<in> set (rhs ?ru)" and b: "[1, 1] \<in> set (lhs ?ru)"
    by simp_all
  have c: "hit_r ?h < length (rules ?s) \<and> rules ?s ! hit_r ?h = \<lparr>lhs = [[0, 1], [0, 1]], rhs = [[0, 1]]\<rparr>"
    by (simp add: run_def)
  have graph: "E (spatial ?s) = [[1, 2], [1, 2]]"
    by (simp add: run_def rewrite_graph_def clear_def)
  show ?thesis
    using factoring_ignores_multiplicity [of "[0, 1]" ?ru "[0, 1]" ?h ?s]
      factoring_ignores_multiplicity [of "[1, 1]" ?ru "[0, 1]" ?h ?s] a b c graph
    by simp
qed

section \<open>Properties of the Match Finder\<close>

text \<open>
  C8. One call of the Match Finder leaves the hypergraph as it is: the state it returns
  differs from the state it was called in at most in \<open>matches\<close>, whether it returns
  normally or throws. With an empty rule set the hit list it leaves is empty.
\<close>

theorem findMatches_frame:
  "spatial (snd (findMatches graph s)) = spatial s
   \<and> snd (findMatches graph s) = s\<lparr>matches := matches (snd (findMatches graph s))\<rparr>
   \<and> findMatches graph (s\<lparr>rules := []\<rparr>) = (None, s\<lparr>rules := [], matches := []\<rparr>)"
  by (simp add: findMatches_def Let_def)

text \<open>
  C4. The claim is that the Match Finder emits exactly \<open>m\<close> hits for a rule and an
  assignment whose substituted left-hand side has multiplicity \<open>m\<close>. With the rule of
  the README and the edges \<open>(1,1,2)(1,5,2)(2,2,3)\<close> the substituted left-hand side
  \<open>(1,1,2)(2,2,3)\<close> of the assignment \<open>x=1, y=2, z=2, u=3\<close> has multiplicity one, and the
  Match Finder emits two hits for it: the seed edge \<open>(1,5,2)\<close> is bound to the
  pattern \<open>(x,x,y)\<close> as well, with the first position winning for \<open>x\<close>.
\<close>

theorem findMatches_overcounts:
  "count_edges \<lparr>E = [[1, 1, 2], [1, 5, 2], [2, 2, 3]], maxv = 5\<rparr>
     (mapper \<lparr>E = [[1, 1, 2], [1, 5, 2], [2, 2, 3]], maxv = 5\<rparr> (lhs readme_rule) [1, 2, 2, 3]) = 1
   \<and> findMatches \<lparr>E = [[1, 1, 2], [1, 5, 2], [2, 2, 3]], maxv = 5\<rparr>
        (run [readme_rule] [[1, 1, 2], [1, 5, 2], [2, 2, 3]] ''mixed'' ''random'' 10)
     = (None, (run [readme_rule] [[1, 1, 2], [1, 5, 2], [2, 2, 3]] ''mixed'' ''random'' 10)
          \<lparr>matches := [\<lparr>hit_r = 0, hit_m = [1, 2, 2, 3], hit_order = None\<rparr>,
                       \<lparr>hit_r = 0, hit_m = [1, 2, 2, 3], hit_order = None\<rparr>]\<rparr>)"
  by code_simp

section \<open>The causal events\<close>

lemma set_dedup [simp]: "set (dedup xs) = set xs"
  by (simp add: dedup_def)

lemma distinct_dedup [simp]: "distinct (dedup xs)"
  by (simp add: dedup_def)

lemma set_plain_sort [simp]: "set (plain_sort xs) = set xs"
  by (simp add: plain_sort_def)

lemma distinct_plain_sort [simp]: "distinct (plain_sort xs) = distinct xs"
  by (simp add: plain_sort_def)

text \<open>The event of an applied hit: it consumes the assignment of the hit, it produces
  every vertex of the added edges once, in the order of the comparator-less \<open>sort()\<close>,
  and it carries the current step.\<close>

lemma applyHit_event:
  "\<exists>ev. causal (applyHit nol h s) = causal s @ [ev]
     \<and> consumed ev = hit_m h \<and> at_step ev = step s
     \<and> set (produced ev) = \<Union> (set ` set (mapper (spatial s) (rhs (nol ! hit_r h)) (hit_m h)))
     \<and> distinct (produced ev)
     \<and> sorted (map toString (produced ev))"
  by (simp add: applyHit_def Let_def rewrite_causal_def plain_sort_def)

text \<open>
  C6. The claim is that the produced set of a causal event is the deduplicated, sorted
  union of the vertices of the added edges. The vertices are sorted by \<open>sort()\<close> with
  no comparator, which compares numbers as strings: for the rule \<open>(x,y) -> (y,x)\<close> and
  the initial edge \<open>(2,10)\<close> both the seeding event and the event of the only hit
  produce \<open>[10, 2]\<close>.
\<close>

theorem produced_in_string_order:
  "causal (run [\<lparr>lhs = [[0, 1]], rhs = [[1, 0]]\<rparr>] [[2, 10]] ''mixed'' ''random'' 1)
     = [\<lparr>consumed = [], produced = [10, 2], at_step = 0\<rparr>]
   \<and> map_sum id causal
        (processMatches ((run [\<lparr>lhs = [[0, 1]], rhs = [[1, 0]]\<rparr>] [[2, 10]] ''mixed'' ''random'' 1)
           \<lparr>step := 1, matches := [\<lparr>hit_r = 0, hit_m = [2, 10], hit_order = None\<rparr>]\<rparr>))
     = Inr [\<lparr>consumed = [], produced = [10, 2], at_step = 0\<rparr>,
            \<lparr>consumed = [2, 10], produced = [10, 2], at_step = 1\<rparr>]"
  by code_simp

section \<open>Properties of the event ordering\<close>

lemma set_js_insert [simp]: "set (js_insert cmp x ys) = insert x (set ys)"
  by (induction ys) auto

lemma mset_js_insert [simp]: "mset (js_insert cmp x ys) = add_mset x (mset ys)"
  by (induction ys) auto

lemma mset_js_sort [simp]: "mset (js_sort cmp xs) = mset xs"
  by (induction xs) (auto simp: js_sort_def)

lemma set_js_sort [simp]: "set (js_sort cmp xs) = set xs"
  by (metis mset_js_sort set_mset_mset)

lemma length_js_sort [simp]: "length (js_sort cmp xs) = length xs"
  by (metis mset_js_sort size_mset)

lemma sorted_wrt_js_insert:
  assumes le: "\<And>a b. le a b \<longleftrightarrow> cmp a b \<le> 0"
    and total: "\<And>a b. le a b \<or> le b a"
    and trans: "\<And>a b c. le a b \<Longrightarrow> le b c \<Longrightarrow> le a c"
  shows "sorted_wrt le ys \<Longrightarrow> sorted_wrt le (js_insert cmp x ys)"
proof (induction ys)
  case Nil
  then show ?case by simp
next
  case (Cons y ys)
  show ?case
  proof (cases "cmp x y \<le> 0")
    case True
    then have "le x y" by (simp add: le)
    moreover have "\<forall>z \<in> set ys. le x z"
      using Cons.prems \<open>le x y\<close> trans by auto
    ultimately show ?thesis
      using True Cons.prems by simp
  next
    case False
    then have "le y x" using total [of x y] by (simp add: le)
    then show ?thesis
      using False Cons by auto
  qed
qed

lemma sorted_wrt_js_sort:
  assumes le: "\<And>a b. le a b \<longleftrightarrow> cmp a b \<le> 0"
    and total: "\<And>a b. le a b \<or> le b a"
    and trans: "\<And>a b c. le a b \<Longrightarrow> le b c \<Longrightarrow> le a c"
  shows "sorted_wrt le (js_sort cmp xs)"
proof (induction xs)
  case Nil
  then show ?case by (simp add: js_sort_def)
next
  case (Cons x xs)
  have "js_sort cmp (x # xs) = js_insert cmp x (js_sort cmp xs)"
    by (simp add: js_sort_def)
  then show ?case
    using sorted_wrt_js_insert [of le cmp, OF le total trans Cons] by simp
qed

lemma filter_js_insert:
  assumes "\<And>y. key y = key x \<Longrightarrow> cmp x y \<le> 0"
  shows "filter (\<lambda>y. key y = k) (js_insert cmp x ys)
     = (if key x = k then x # filter (\<lambda>y. key y = k) ys else filter (\<lambda>y. key y = k) ys)"
  using assms by (induction ys) auto

lemma js_sort_stable:
  assumes "\<And>x y. key y = key x \<Longrightarrow> cmp x y \<le> 0"
  shows "filter (\<lambda>y. key y = k) (js_sort cmp xs) = filter (\<lambda>y. key y = k) xs"
proof (induction xs)
  case Nil
  then show ?case by (simp add: js_sort_def)
next
  case (Cons x xs)
  have "js_sort cmp (x # xs) = js_insert cmp x (js_sort cmp xs)"
    by (simp add: js_sort_def)
  then show ?case
    using Cons filter_js_insert [of key x cmp k "js_sort cmp xs"] assms by simp
qed

lemma ascending_cmp_le: "ascending_cmp a b \<le> 0 \<longleftrightarrow> b \<le> a"
  by (induction a b rule: ascending_cmp.induct) auto

lemma descending_cmp_le: "descending_cmp a b \<le> 0 \<longleftrightarrow> a \<le> b"
  by (induction a b rule: descending_cmp.induct) auto


lemma order_key_sorted:
  assumes "order_key lab mp = Inr k"
  shows "list_all2 (\<lambda>v x. lab v = Some x) mp (map (\<lambda>v. the (lab v)) mp)"
    and "mset k = mset (map (\<lambda>v. the (lab v)) mp)"
    and "sorted_wrt (\<ge>) k"
proof -
  have all: "\<forall>v \<in> set mp. lab v \<noteq> None"
    using assms by (auto simp: order_key_def split: if_splits)
  have k: "k = js_sort (\<lambda>a b. b - a) (map (\<lambda>v. the (lab v)) mp)"
    using assms by (auto simp: order_key_def split: if_splits)
  show "list_all2 (\<lambda>v x. lab v = Some x) mp (map (\<lambda>v. the (lab v)) mp)"
    using all by (auto simp: list_all2_conv_all_nth)
  show "mset k = mset (map (\<lambda>v. the (lab v)) mp)"
    by (simp add: k)
  show "sorted_wrt (\<ge>) k"
    unfolding k by (rule sorted_wrt_js_sort) auto
qed

lemma attach_order_keys:
  assumes "attach_order lab hs = Inr hs'"
  shows "list_all2 (\<lambda>h h'. hit_r h' = hit_r h \<and> hit_m h' = hit_m h
            \<and> order_key lab (hit_m h) = Inr (order_of h')) hs hs'"
  using assms
proof (induction hs arbitrary: hs')
  case Nil
  then show ?case by simp
next
  case (Cons h hs)
  then show ?case
    by (auto simp: order_of_def split: sum.splits)
qed

text \<open>
  C5. With \<open>eventOrdering = "ascending"\<close> every hit of the shuffled list gets as its
  key the first ranks of its bound vertices sorted descending, and the list is sorted
  stably. The comparator \<open>b.order[i] - a.order[i]\<close>, then
  \<open>b.order.length - a.order.length\<close>, puts the lexicographically largest key
  first, and of two keys of which one is a prefix of the other the longer one.
\<close>

theorem ascending_event_order:
  assumes "eventordering s = ''ascending''" and "event_order L s = Inr s'"
  shows "\<exists>hs. list_all2 (\<lambda>h h'. hit_r h' = hit_r h \<and> hit_m h' = hit_m h
                  \<and> order_key (L (causal s)) (hit_m h) = Inr (order_of h')) (matches s) hs
          \<and> (\<forall>h' \<in> set hs. sorted_wrt (\<ge>) (order_of h')
                  \<and> mset (order_of h') = mset (map (\<lambda>v. the (L (causal s) v)) (hit_m h')))
          \<and> mset (matches s') = mset hs
          \<and> sorted_wrt (\<lambda>a b. order_of b \<le> order_of a) (matches s')
          \<and> (\<forall>k. filter (\<lambda>h. order_of h = k) (matches s') = filter (\<lambda>h. order_of h = k) hs)"
proof -
  let ?cmp = "\<lambda>a b. ascending_cmp (order_of a) (order_of b)"
  obtain hs where hs: "attach_order (L (causal s)) (matches s) = Inr hs"
    and s': "s' = s\<lparr>matches := js_sort ?cmp hs\<rparr>"
    using assms by (auto simp: event_order_def split: sum.splits if_splits)
  have keys: "list_all2 (\<lambda>h h'. hit_r h' = hit_r h \<and> hit_m h' = hit_m h
                  \<and> order_key (L (causal s)) (hit_m h) = Inr (order_of h')) (matches s) hs"
    by (rule attach_order_keys [OF hs])
  have each: "sorted_wrt (\<ge>) (order_of h')
      \<and> mset (order_of h') = mset (map (\<lambda>v. the (L (causal s) v)) (hit_m h'))"
    if mem: "h' \<in> set hs" for h'
  proof -
    obtain i where i: "i < length hs" "hs ! i = h'"
      using mem by (auto simp: in_set_conv_nth)
    define h where "h = matches s ! i"
    have "order_key (L (causal s)) (hit_m h) = Inr (order_of h')" and "hit_m h' = hit_m h"
      using keys i by (auto simp: list_all2_conv_all_nth h_def)
    then show ?thesis
      using order_key_sorted(2,3) [of "L (causal s)" "hit_m h" "order_of h'"] by simp
  qed
  have sorted: "sorted_wrt (\<lambda>a b. order_of b \<le> order_of a) (js_sort ?cmp hs)"
    by (rule sorted_wrt_js_sort) (auto simp: ascending_cmp_le)
  have stable: "filter (\<lambda>h. order_of h = k) (js_sort ?cmp hs) = filter (\<lambda>h. order_of h = k) hs" for k
    by (rule js_sort_stable) (simp add: ascending_cmp_le)
  show ?thesis
    using keys each sorted stable by (intro exI [of _ hs]) (simp add: s')
qed


theorem ascending_event_order_witness:
  "eventordering example_state = ''ascending''
   \<and> event_order example_ranks example_state
       = Inr (example_state\<lparr>matches :=
           [\<lparr>hit_r = 0, hit_m = [2], hit_order = Some [7]\<rparr>,
            \<lparr>hit_r = 1, hit_m = [1, 3], hit_order = Some [5, 3]\<rparr>,
            \<lparr>hit_r = 0, hit_m = [1], hit_order = Some [5]\<rparr>]\<rparr>)
   \<and> sorted_wrt (\<lambda>a b. order_of b \<le> order_of a)
        [\<lparr>hit_r = 0, hit_m = [2], hit_order = Some [7]\<rparr>,
         \<lparr>hit_r = 1, hit_m = [1, 3], hit_order = Some [5, 3]\<rparr>,
         \<lparr>hit_r = 0, hit_m = [1], hit_order = Some [5]\<rparr>]"
proof -
  let ?out = "[\<lparr>hit_r = 0, hit_m = [2], hit_order = Some [7]\<rparr>,
            \<lparr>hit_r = 1, hit_m = [1, 3], hit_order = Some [5, 3]\<rparr>,
            \<lparr>hit_r = 0, hit_m = [1], hit_order = Some [5]\<rparr>]"
  have eo: "eventordering example_state = ''ascending''"
    by (simp add: example_state_def run_def)
  have ok: "event_order example_ranks example_state = Inr (example_state\<lparr>matches := ?out\<rparr>)"
    by code_simp
  show ?thesis
    using ascending_event_order [OF eo ok] eo ok by auto
qed

text \<open>The claim as it is written asks for the lexicographically smallest key first and
  the shorter key first; the list the code makes of the three example hits is not
  sorted that way.\<close>

theorem ascending_event_order_counterexample:
  "map_sum id (map order_of \<circ> matches) (event_order example_ranks example_state)
     = Inr [[7], [5, 3], [5]]
   \<and> \<not> sorted [[7], [5, 3], [5 :: int]]"
  by code_simp

section \<open>Properties of the scheduler\<close>

subsection \<open>The hits of the Match Finder are present\<close>


lemma rule_hits_present:
  assumes "rule_hits g e i ru = Inr hs" and "h \<in> set hs"
  shows "hit_r h = i \<and> count_edges g (mapper g (lhs ru) (hit_m h)) \<noteq> 0"
proof -
  obtain p0 ps where l: "lhs ru = p0 # ps"
    using assms(1) by (cases "lhs ru") (auto simp: rule_hits_def)
  define mapsNext where "mapsNext = foldl (extend g)
      [bind p0 e (replicate (Max (set (concat (lhs ru))) + 1) (- 1))] ps"
  have "hs = [] \<or> hs = concat (map (\<lambda>mp. replicate (count_edges g (mapper g (lhs ru) mp))
                                        \<lparr>hit_r = i, hit_m = mp, hit_order = None\<rparr>)
                                (rev mapsNext))"
    using assms(1) l unfolding rule_hits_def mapsNext_def
    by (simp add: Let_def split: if_splits)
  then show ?thesis
    using assms(2) by auto
qed

lemma find_loop_present:
  assumes "find_loop g rs ps acc = (x, hs)"
    and "\<forall>(e, i) \<in> set ps. i < length rs"
    and "\<forall>h \<in> set acc. present g rs h"
  shows "\<forall>h \<in> set hs. present g rs h"
  using assms
proof (induction g rs ps acc rule: find_loop.induct)
  case (1 graph rs acc)
  then show ?case by simp
next
  case (2 graph rs edge i rest acc)
  show ?case
  proof (cases "rule_hits graph edge i (rs ! i)")
    case (Inl err)
    then show ?thesis using 2 by simp
  next
    case (Inr found)
    have "i < length rs" using 2(3) by simp
    then have "\<forall>h \<in> set (acc @ found). present graph rs h"
      using 2(4) rule_hits_present [OF Inr] by (auto simp: present_def)
    then show ?thesis
      using 2 Inr by simp
  qed
qed

lemma findMatches_present:
  "\<forall>h \<in> set (matches (snd (findMatches g s))). present g (rules s) h"
proof (cases "rules s = []")
  case True
  then show ?thesis by (simp add: findMatches_def)
next
  case False
  let ?ps = "List.product (E g) [0..<length (rules s)]"
  have "\<forall>h \<in> set (snd (find_loop g (rules s) ?ps [])). present g (rules s) h"
    by (rule find_loop_present [of g "rules s" ?ps "[]" "fst (find_loop g (rules s) ?ps [])"]) auto
  then show ?thesis
    using False by (simp add: findMatches_def Let_def)
qed

lemma findMatches_rules_only:
  assumes "rules s = rules t"
  shows "fst (findMatches g s) = fst (findMatches g t)"
    and "matches (snd (findMatches g s)) = matches (snd (findMatches g t))"
  using assms by (simp_all add: findMatches_def Let_def)

lemma findMatches_state: "snd (findMatches g s) = s\<lparr>matches := matches (snd (findMatches g s))\<rparr>"
  by (simp add: findMatches_def Let_def)

lemma length_swap [simp]: "length (swap i j xs) = length xs"
  by (simp add: swap_def)

lemma mset_swap_list: "i < length xs \<Longrightarrow> j < length xs \<Longrightarrow> mset (swap i j xs) = mset xs"
  unfolding swap_def by (metis mset_swap)

lemma mset_shuffle_from: "i < length xs \<Longrightarrow> mset (shuffle_from rnd i xs) = mset xs"
proof (induction i arbitrary: xs)
  case 0
  then show ?case by simp
next
  case (Suc i)
  have "rnd (Suc i) mod (Suc i + 1) < length xs"
  proof -
    have "rnd (Suc i) mod (Suc i + 1) < Suc i + 1" by (rule mod_less_divisor) simp
    then show ?thesis using Suc.prems by linarith
  qed
  then have "mset (swap (Suc i) (rnd (Suc i) mod (Suc i + 1)) xs) = mset xs"
    using Suc.prems by (simp add: mset_swap_list)
  then show ?case
    using Suc by simp
qed

lemma mset_shuffle [simp]: "mset (shuffle rnd xs) = mset xs"
proof (cases xs)
  case Nil
  then show ?thesis by (simp add: shuffle_def)
next
  case (Cons a list)
  then show ?thesis by (simp add: shuffle_def mset_shuffle_from)
qed

lemma set_shuffle [simp]: "set (shuffle rnd xs) = set xs"
  by (metis mset_shuffle set_mset_mset)





lemma applyHit_fields [simp]:
  "rules (applyHit nol h s) = rules s" "maxevents (applyHit nol h s) = maxevents s"
  "eventcnt (applyHit nol h s) = eventcnt s" "matches (applyHit nol h s) = matches s"
  "step (applyHit nol h s) = step s" "progress (applyHit nol h s) = progress s"
  "finished (applyHit nol h s) = finished s"
  "eventordering (applyHit nol h s) = eventordering s"
  by (simp_all add: applyHit_def Let_def)

lemma processLoop_Cons:
  "processLoop nol (h # hs) s =
     (if length (rules s) \<le> hit_r h then Inl TypeError
      else if count_edges (spatial s) (mapper (spatial s) (lhs (rules s ! hit_r h)) (hit_m h)) \<noteq> 0
      then (if maxevents s \<le> eventcnt s + 1
            then Inr ((applyHit nol h s)\<lparr>eventcnt := eventcnt s + 1\<rparr>)
            else processLoop nol hs ((applyHit nol h s)\<lparr>eventcnt := eventcnt s + 1\<rparr>))
      else processLoop nol hs s)"
  by (simp add: Let_def)

declare processLoop.simps(2) [simp del]

lemma processLoop_ConsE:
  assumes run: "processLoop nol (h # hs) s = Inr s'"
  obtains (stop) "present (spatial s) (rules s) h" "maxevents s \<le> eventcnt s + 1"
      "s' = (applyHit nol h s)\<lparr>eventcnt := eventcnt s + 1\<rparr>"
    | (applied) "present (spatial s) (rules s) h" "\<not> maxevents s \<le> eventcnt s + 1"
      "processLoop nol hs ((applyHit nol h s)\<lparr>eventcnt := eventcnt s + 1\<rparr>) = Inr s'"
    | (skipped) "\<not> present (spatial s) (rules s) h" "processLoop nol hs s = Inr s'"
proof (cases "length (rules s) \<le> hit_r h")
  case True
  then have "processLoop nol (h # hs) s = Inl TypeError"
    by (simp add: processLoop_Cons)
  then show ?thesis using run by simp
next
  case inside: False
  show ?thesis
  proof (cases "count_edges (spatial s) (mapper (spatial s) (lhs (rules s ! hit_r h)) (hit_m h)) = 0")
    case True
    then have "processLoop nol (h # hs) s = processLoop nol hs s"
      using inside by (simp add: processLoop_Cons)
    moreover have "\<not> present (spatial s) (rules s) h"
      using True by (simp add: present_def)
    ultimately show ?thesis using run skipped by simp
  next
    case False
    then have p: "present (spatial s) (rules s) h"
      using inside by (simp add: present_def)
    show ?thesis
    proof (cases "maxevents s \<le> eventcnt s + 1")
      case True
      then have "processLoop nol (h # hs) s = Inr ((applyHit nol h s)\<lparr>eventcnt := eventcnt s + 1\<rparr>)"
        using inside False by (simp add: processLoop_Cons)
      then show ?thesis using run stop p True by simp
    next
      case neg: False
      then have "processLoop nol (h # hs) s
          = processLoop nol hs ((applyHit nol h s)\<lparr>eventcnt := eventcnt s + 1\<rparr>)"
        using inside False by (simp add: processLoop_Cons)
      then show ?thesis using run applied p neg by simp
    qed
  qed
qed

lemma processLoop_fields:
  assumes "processLoop nol hs s = Inr s'"
  shows "rules s' = rules s \<and> maxevents s' = maxevents s \<and> matches s' = matches s
     \<and> step s' = step s \<and> progress s' = progress s \<and> finished s' = finished s
     \<and> eventordering s' = eventordering s"
  using assms
proof (induction hs arbitrary: s)
  case Nil
  then show ?case by simp
next
  case (Cons h hs)
  let ?s1 = "(applyHit nol h s)\<lparr>eventcnt := eventcnt s + 1\<rparr>"
  from Cons.prems show ?case
  proof (cases rule: processLoop_ConsE)
    case stop
    then show ?thesis by simp
  next
    case applied
    then show ?thesis using Cons.IH [of ?s1] by simp
  next
    case skipped
    then show ?thesis using Cons.IH [of s] by simp
  qed
qed

lemma processLoop_counter:
  assumes "processLoop nol hs s = Inr s'"
  shows "eventcnt s \<le> eventcnt s' \<and> eventcnt s' \<le> max (eventcnt s + 1) (maxevents s)"
  using assms
proof (induction hs arbitrary: s)
  case Nil
  then show ?case by simp
next
  case (Cons h hs)
  let ?s1 = "(applyHit nol h s)\<lparr>eventcnt := eventcnt s + 1\<rparr>"
  from Cons.prems show ?case
  proof (cases rule: processLoop_ConsE)
    case stop
    then show ?thesis by simp
  next
    case applied
    then show ?thesis using Cons.IH [of ?s1] by simp
  next
    case skipped
    then show ?thesis using Cons.IH [of s] by simp
  qed
qed

lemma processLoop_progress:
  assumes "processLoop nol (h # hs) s = Inr s'" and "present (spatial s) (rules s) h"
  shows "eventcnt s < eventcnt s'"
  using assms(1)
proof (cases rule: processLoop_ConsE)
  case stop
  then show ?thesis by simp
next
  case applied
  then show ?thesis
    using processLoop_counter [of nol hs "(applyHit nol h s)\<lparr>eventcnt := eventcnt s + 1\<rparr>" s'] by simp
next
  case skipped
  then show ?thesis using assms(2) by simp
qed

lemma processLoop_total:
  assumes "\<forall>h \<in> set hs. hit_r h < length (rules s)"
  shows "\<exists>s'. processLoop nol hs s = Inr s'"
  using assms
proof (induction hs arbitrary: s)
  case Nil
  then show ?case by simp
next
  case (Cons h hs)
  let ?s1 = "(applyHit nol h s)\<lparr>eventcnt := eventcnt s + 1\<rparr>"
  have "\<exists>s'. processLoop nol hs ?s1 = Inr s'" "\<exists>s'. processLoop nol hs s = Inr s'"
    using Cons.IH [of ?s1] Cons.IH [of s] Cons.prems by simp_all
  moreover have "hit_r h < length (rules s)"
    using Cons.prems by simp
  ultimately show ?case
    by (simp add: processLoop_Cons)
qed




lemma present_cong:
  "hit_r h' = hit_r h \<Longrightarrow> hit_m h' = hit_m h \<Longrightarrow> present g rs h' = present g rs h"
  by (simp add: present_def)

lemma attach_order_same:
  assumes "attach_order lab hs = Inr hs'"
  shows "map hit_r hs' = map hit_r hs \<and> map hit_m hs' = map hit_m hs"
  using assms
proof (induction hs arbitrary: hs')
  case Nil
  then show ?case by simp
next
  case (Cons h hs)
  then show ?case by (auto split: sum.splits)
qed

lemma attach_order_present:
  assumes "attach_order lab hs = Inr hs'" and "\<forall>h \<in> set hs. present g rs h"
  shows "\<forall>h \<in> set hs'. present g rs h" and "hs' = [] \<longleftrightarrow> hs = []"
proof -
  have same: "map hit_r hs' = map hit_r hs" "map hit_m hs' = map hit_m hs"
    using attach_order_same [OF assms(1)] by simp_all
  then have len: "length hs' = length hs"
    by (metis length_map)
  show "hs' = [] \<longleftrightarrow> hs = []"
    using len by auto
  show "\<forall>h \<in> set hs'. present g rs h"
  proof
    fix h' assume "h' \<in> set hs'"
    then obtain i where i: "i < length hs'" "hs' ! i = h'"
      by (auto simp: in_set_conv_nth)
    have "hit_r (hs' ! i) = hit_r (hs ! i)" "hit_m (hs' ! i) = hit_m (hs ! i)"
      using same i len by (metis nth_map)+
    moreover have "present g rs (hs ! i)"
      using assms(2) i len by simp
    ultimately show "present g rs h'"
      using i present_cong by blast
  qed
qed

lemma event_order_fields:
  assumes "event_order L s = Inr s'"
  shows "spatial s' = spatial s \<and> causal s' = causal s \<and> rules s' = rules s
     \<and> maxevents s' = maxevents s \<and> eventcnt s' = eventcnt s \<and> step s' = step s
     \<and> progress s' = progress s \<and> finished s' = finished s \<and> ruleordering s' = ruleordering s
     \<and> eventordering s' = eventordering s"
  using assms by (auto simp: event_order_def split: if_splits sum.splits)

lemma event_order_present:
  assumes "event_order L s = Inr s'" and "\<forall>h \<in> set (matches s). present g rs h"
  shows "(\<forall>h \<in> set (matches s'). present g rs h) \<and> (matches s' = [] \<longleftrightarrow> matches s = [])"
proof (cases "eventordering s = ''random''")
  case True
  then show ?thesis using assms by (simp add: event_order_def)
next
  case False
  then obtain hs where hs: "attach_order (L (causal s)) (matches s) = Inr hs"
    using assms(1) by (auto simp: event_order_def split: sum.splits)
  have "set (matches s') = set hs"
    using assms(1) False hs by (auto simp: event_order_def split: if_splits)
  then show ?thesis
    using attach_order_present [OF hs assms(2)] by auto
qed

lemma rule_order_fields [simp]:
  "spatial (rule_order s) = spatial s" "causal (rule_order s) = causal s"
  "rules (rule_order s) = rules s" "maxevents (rule_order s) = maxevents s"
  "eventcnt (rule_order s) = eventcnt s" "step (rule_order s) = step s"
  "progress (rule_order s) = progress s" "finished (rule_order s) = finished s"
  "set (matches (rule_order s)) = set (matches s)"
  "eventordering (rule_order s) = eventordering s"
  by (simp_all add: rule_order_def)




lemma round_unfold:
  "round L rnd s =
     (case fst (findMatches (spatial s) (s\<lparr>step := step s + 1\<rparr>)) of
        Some e \<Rightarrow> Inl e
      | None \<Rightarrow>
          if matches (snd (findMatches (spatial s) (s\<lparr>step := step s + 1\<rparr>))) = []
          then Inr (True, snd (findMatches (spatial s) (s\<lparr>step := step s + 1\<rparr>)))
          else
            (case event_order L ((snd (findMatches (spatial s) (s\<lparr>step := step s + 1\<rparr>)))
                    \<lparr>matches := shuffle (rnd (step s + 1))
                        (matches (snd (findMatches (spatial s) (s\<lparr>step := step s + 1\<rparr>))))\<rparr>) of
               Inl e \<Rightarrow> Inl e
             | Inr s3 \<Rightarrow>
                 (case processMatches (rule_order s3) of
                    Inl e \<Rightarrow> Inl e
                  | Inr s4 \<Rightarrow> Inr (maxevents s4 \<le> eventcnt s4, s4))))"
proof (cases "findMatches (spatial s) (s\<lparr>step := step s + 1\<rparr>)")
  case (Pair x s2)
  have "step (snd (findMatches (spatial s) (s\<lparr>step := step s + 1\<rparr>))) = step s + 1"
    by (simp add: findMatches_def Let_def)
  then have "step s2 = step s + 1"
    using Pair by simp
  then show ?thesis
    using Pair by (simp add: round_def Let_def split: option.splits)
qed

lemma round_cases:
  assumes "round L rnd s = Inr (brk, s')"
  obtains (exhausted) "brk" "s' = snd (findMatches (spatial s) (s\<lparr>step := step s + 1\<rparr>))"
      "matches s' = []"
    | (processed) s3 where
      "matches (snd (findMatches (spatial s) (s\<lparr>step := step s + 1\<rparr>))) \<noteq> []"
      "event_order L ((snd (findMatches (spatial s) (s\<lparr>step := step s + 1\<rparr>)))
          \<lparr>matches := shuffle (rnd (step s + 1))
              (matches (snd (findMatches (spatial s) (s\<lparr>step := step s + 1\<rparr>))))\<rparr>) = Inr s3"
      "processMatches (rule_order s3) = Inr s'"
      "brk \<longleftrightarrow> maxevents s' \<le> eventcnt s'"
proof -
  let ?s1 = "s\<lparr>step := step s + 1\<rparr>"
  let ?fm = "findMatches (spatial s) ?s1"
  let ?s2 = "snd ?fm"
  have step2: "step ?s2 = step s + 1"
    by (simp add: findMatches_def Let_def)
  have none: "fst ?fm = None"
    using assms by (cases "fst ?fm") (auto simp: round_unfold)
  show ?thesis
  proof (cases "matches ?s2 = []")
    case True
    then have "round L rnd s = Inr (True, ?s2)"
      using none by (simp add: round_unfold)
    then show ?thesis
      using assms exhausted True by simp
  next
    case False
    let ?s2' = "?s2\<lparr>matches := shuffle (rnd (step s + 1)) (matches ?s2)\<rparr>"
    have r: "round L rnd s =
        (case event_order L ?s2' of
           Inl e \<Rightarrow> Inl e
         | Inr s3 \<Rightarrow>
             (case processMatches (rule_order s3) of
                Inl e \<Rightarrow> Inl e
              | Inr s4 \<Rightarrow> Inr (maxevents s4 \<le> eventcnt s4, s4)))"
      using none False by (simp add: round_unfold)
    then obtain s3 where s3: "event_order L ?s2' = Inr s3"
      using assms by (cases "event_order L ?s2'") auto
    then obtain s4 where s4: "processMatches (rule_order s3) = Inr s4"
      using assms r by (cases "processMatches (rule_order s3)") auto
    have "brk = (maxevents s4 \<le> eventcnt s4)" "s' = s4"
      using assms r s3 s4 by auto
    then show ?thesis
      using processed [OF False s3] s4 by simp
  qed
qed




lemma findMatches_fields [simp]:
  "spatial (snd (findMatches g s)) = spatial s" "causal (snd (findMatches g s)) = causal s"
  "rules (snd (findMatches g s)) = rules s" "maxevents (snd (findMatches g s)) = maxevents s"
  "eventcnt (snd (findMatches g s)) = eventcnt s" "step (snd (findMatches g s)) = step s"
  "progress (snd (findMatches g s)) = progress s" "finished (snd (findMatches g s)) = finished s"
  "eventordering (snd (findMatches g s)) = eventordering s"
  by (simp_all add: findMatches_def Let_def)

lemma shuffle_Nil_iff [simp]: "shuffle rnd xs = [] \<longleftrightarrow> xs = []"
  by (metis mset_shuffle mset_zero_iff)

lemma processLoop_events:
  assumes "processLoop nol hs s = Inr s'"
  shows "int (length (causal s')) - eventcnt s' = int (length (causal s)) - eventcnt s"
  using assms
proof (induction hs arbitrary: s)
  case Nil
  then show ?case by simp
next
  case (Cons h hs)
  let ?s1 = "(applyHit nol h s)\<lparr>eventcnt := eventcnt s + 1\<rparr>"
  have one: "int (length (causal ?s1)) - eventcnt ?s1 = int (length (causal s)) - eventcnt s"
    by (simp add: applyHit_def Let_def rewrite_causal_def)
  from Cons.prems show ?case
  proof (cases rule: processLoop_ConsE)
    case stop
    then show ?thesis using one by simp
  next
    case applied
    then show ?thesis using Cons.IH [of ?s1] one by simp
  next
    case skipped
    then show ?thesis using Cons.IH [of s] by simp
  qed
qed

lemma round_advanced:
  assumes "round L rnd s = Inr (brk, s')"
  shows "advanced s s'" and "brk \<longleftrightarrow> matches s' = [] \<or> maxevents s' \<le> eventcnt s'"
proof -
  let ?s1 = "s\<lparr>step := step s + 1\<rparr>"
  let ?s2 = "snd (findMatches (spatial s) ?s1)"
  have "advanced s s' \<and> (brk \<longleftrightarrow> matches s' = [] \<or> maxevents s' \<le> eventcnt s')"
    using assms
  proof (cases rule: round_cases)
    case exhausted
    have "matches (snd (findMatches (spatial s') s')) = matches ?s2"
      unfolding exhausted(2) by (subst findMatches_rules_only(2) [of _ ?s1]) simp_all
    then have "exhausted s'"
      using exhausted by (simp add: exhausted_def)
    moreover have "matches (snd (findMatches (spatial s) s)) = matches ?s2"
      by (subst findMatches_rules_only(2) [of _ ?s1]) simp_all
    then have "exhausted s"
      using exhausted by (simp add: exhausted_def)
    ultimately show ?thesis
      using exhausted by (simp add: advanced_def)
  next
    case (processed s3)
    let ?s2' = "?s2\<lparr>matches := shuffle (rnd (step s + 1)) (matches ?s2)\<rparr>"
    let ?s4 = "rule_order s3"
    have p2: "\<forall>h \<in> set (matches ?s2'). present (spatial s) (rules s) h"
      using findMatches_present [of "spatial s" ?s1] by simp
    have f3: "spatial s3 = spatial s" "rules s3 = rules s" "maxevents s3 = maxevents s"
      "eventcnt s3 = eventcnt s" "finished s3 = finished s" "causal s3 = causal s"
      "progress s3 = progress s" "eventordering s3 = eventordering s"
      using event_order_fields [OF processed(2)] by simp_all
    have p3: "\<forall>h \<in> set (matches s3). present (spatial s) (rules s) h" "matches s3 \<noteq> []"
      using event_order_present [OF processed(2) p2] processed(1) by simp_all
    then obtain h hs where m4: "matches ?s4 = h # hs"
      by (metis rule_order_fields(9) list.exhaust set_empty)
    then have "h \<in> set (matches s3)"
      by (metis rule_order_fields(9) list.set_intros(1))
    then have ph: "present (spatial ?s4) (rules ?s4) h"
      using p3 f3 by simp
    have loop: "processLoop (rulesNol (rules ?s4)) (h # hs) ?s4 = Inr s'"
      using processed(3) m4 by (simp add: processMatches_def)
    have "eventcnt ?s4 < eventcnt s'"
      by (rule processLoop_progress [OF loop ph])
    moreover have "eventcnt s' \<le> max (eventcnt ?s4 + 1) (maxevents ?s4)"
      using processLoop_counter [OF loop] by simp
    moreover have "rules s' = rules ?s4 \<and> maxevents s' = maxevents ?s4 \<and> matches s' = matches ?s4
        \<and> finished s' = finished ?s4 \<and> progress s' = progress ?s4
        \<and> eventordering s' = eventordering ?s4"
      using processLoop_fields [OF loop] by simp
    moreover have "int (length (causal s')) - eventcnt s' = int (length (causal ?s4)) - eventcnt ?s4"
      by (rule processLoop_events [OF loop])
    ultimately show ?thesis
      using f3 m4 processed(4) by (simp add: advanced_def)
  qed
  then show "advanced s s'" and "brk \<longleftrightarrow> matches s' = [] \<or> maxevents s' \<le> eventcnt s'"
    by simp_all
qed




lemma round_step:
  assumes "round L rnd s = Inr (brk, s')"
  shows "step s' = step s + 1"
  using assms
proof (cases rule: round_cases)
  case exhausted
  then show ?thesis by simp
next
  case (processed s3)
  have "step s' = step (rule_order s3)"
    using processLoop_fields [of _ _ "rule_order s3" s'] processed(3)
    by (simp add: processMatches_def)
  then show ?thesis
    using event_order_fields [OF processed(2)] by simp
qed

lemma exhausted_cong:
  "spatial t = spatial s \<Longrightarrow> rules t = rules s \<Longrightarrow> exhausted t = exhausted s"
  unfolding exhausted_def using findMatches_rules_only(2) [of t s "spatial s"] by simp

lemma advanced_then:
  assumes "advanced s s1" and "matches s1 \<noteq> []" and "eventcnt s1 < maxevents s1"
    and "advanced s1 s'"
  shows "advanced s s'"
  using assms unfolding advanced_def by auto

lemma slice_advanced:
  assumes "slice_loop L rnd k s = Inr s'"
  shows "advanced s s'"
  using assms
proof (induction k arbitrary: s)
  case 0
  then obtain brk where "round L rnd s = Inr (brk, s')"
    by (auto split: sum.splits)
  then show ?case by (rule round_advanced(1))
next
  case (Suc k)
  then obtain brk s1 where r: "round L rnd s = Inr (brk, s1)"
    by (auto split: sum.splits)
  show ?case
  proof (cases brk)
    case True
    then have "s' = s1" using Suc.prems r by simp
    then show ?thesis using round_advanced(1) [OF r] by simp
  next
    case False
    then have "slice_loop L rnd k s1 = Inr s'"
      using Suc.prems r by simp
    then have "advanced s1 s'" by (rule Suc.IH)
    moreover have "matches s1 \<noteq> []" "eventcnt s1 < maxevents s1"
      using round_advanced(2) [OF r] False by auto
    ultimately show ?thesis
      using round_advanced(1) [OF r] advanced_then by blast
  qed
qed

lemma rewrite_Finished:
  assumes "rewrite L rnd k s = Finished s'"
  shows "rules s' = rules s" "maxevents s' = maxevents s" "finished s' = finished s + 1"
    "eventcnt s \<le> eventcnt s'" "eventcnt s' \<le> max (eventcnt s + 1) (maxevents s)"
    "eventcnt s' < maxevents s \<Longrightarrow> exhausted s'"
    "progress s' = progress s @ [eventcnt s']" "matches s' = []"
    "int (length (causal s')) - eventcnt s' = int (length (causal s)) - eventcnt s"
proof -
  obtain s1 where s1: "slice_loop L rnd k s = Inr s1"
    using assms by (cases "slice_loop L rnd k s") (auto simp: rewrite_def)
  have fin: "matches s1 = [] \<or> maxevents s1 \<le> eventcnt s1"
    and s': "s' = s1\<lparr>progress := progress s1 @ [eventcnt s1], matches := [],
        finished := finished s1 + 1\<rparr>"
    using assms s1 by (auto simp: rewrite_def Let_def split: if_splits)
  have adv: "advanced s s1" by (rule slice_advanced [OF s1])
  have pr: "progress s1 = progress s" using adv by (simp add: advanced_def)
  show "rules s' = rules s" "maxevents s' = maxevents s" "finished s' = finished s + 1"
    "eventcnt s \<le> eventcnt s'" "eventcnt s' \<le> max (eventcnt s + 1) (maxevents s)"
    "matches s' = []"
    "int (length (causal s')) - eventcnt s' = int (length (causal s)) - eventcnt s"
    using adv by (simp_all add: s' advanced_def)
  show "progress s' = progress s @ [eventcnt s']"
    using pr by (simp add: s')
  show "exhausted s'" if "eventcnt s' < maxevents s"
  proof -
    have "matches s1 = []" using fin that adv by (simp add: s' advanced_def)
    then have "exhausted s1" using adv by (simp add: advanced_def)
    then show ?thesis
      using exhausted_cong [of s' s1] by (simp add: s')
  qed
qed

lemma rewrite_Scheduled:
  assumes "rewrite L rnd k s = Scheduled s'"
  shows "rules s' = rules s" "maxevents s' = maxevents s" "finished s' = finished s"
    "eventcnt s < eventcnt s'" "eventcnt s' < maxevents s"
    "int (length (causal s')) - eventcnt s' = int (length (causal s)) - eventcnt s"
proof -
  obtain s1 where s1: "slice_loop L rnd k s = Inr s1"
    using assms by (cases "slice_loop L rnd k s") (auto simp: rewrite_def)
  have fin: "matches s1 \<noteq> []" "\<not> maxevents s1 \<le> eventcnt s1"
    and s': "s' = s1\<lparr>progress := progress s1 @ [eventcnt s1], matches := []\<rparr>"
    using assms s1 by (auto simp: rewrite_def Let_def split: if_splits)
  have adv: "advanced s s1" by (rule slice_advanced [OF s1])
  show "rules s' = rules s" "maxevents s' = maxevents s" "finished s' = finished s"
    "eventcnt s < eventcnt s'" "eventcnt s' < maxevents s"
    "int (length (causal s')) - eventcnt s' = int (length (causal s)) - eventcnt s"
    using adv fin by (simp_all add: s' advanced_def)
qed




lemma timers_Finished:
  assumes "timers L rnd ks s = Finished s'"
  shows "maxevents s' = maxevents s \<and> finished s' = finished s + 1
     \<and> eventcnt s \<le> eventcnt s' \<and> eventcnt s' \<le> max (eventcnt s + 1) (maxevents s)
     \<and> (eventcnt s' < maxevents s \<longrightarrow> exhausted s')
     \<and> last (progress s') = eventcnt s'
     \<and> int (length (causal s')) - eventcnt s' = int (length (causal s)) - eventcnt s"
  using assms
proof (induction ks arbitrary: s)
  case Nil
  then show ?case by simp
next
  case (Cons k ks)
  show ?case
  proof (cases "rewrite L rnd k s")
    case (Finished s1)
    then have "s1 = s'" using Cons.prems by simp
    then show ?thesis
      using rewrite_Finished [of L rnd k s s'] Finished by simp
  next
    case (Scheduled s1)
    then have "timers L rnd ks s1 = Finished s'"
      using Cons.prems by simp
    then show ?thesis
      using Cons.IH [of s1] rewrite_Scheduled [OF Scheduled] by auto
  next
    case (Threw e)
    then show ?thesis using Cons.prems by simp
  qed
qed

lemma timers_Scheduled:
  assumes "timers L rnd ks s = Scheduled s'"
  shows "maxevents s' = maxevents s \<and> finished s' = finished s
     \<and> eventcnt s + int (length ks) \<le> eventcnt s'
     \<and> (ks \<noteq> [] \<longrightarrow> eventcnt s' < maxevents s)"
  using assms
proof (induction ks arbitrary: s)
  case Nil
  then show ?case by simp
next
  case (Cons k ks)
  show ?case
  proof (cases "rewrite L rnd k s")
    case (Finished s1)
    then show ?thesis using Cons.prems by simp
  next
    case (Scheduled s1)
    then have t: "timers L rnd ks s1 = Scheduled s'"
      using Cons.prems by simp
    show ?thesis
    proof (cases ks)
      case Nil
      then have "s' = s1" using t by simp
      then show ?thesis
        using rewrite_Scheduled [OF Scheduled] Nil by simp
    next
      case (Cons a list)
      then show ?thesis
        using Cons.IH [OF t] rewrite_Scheduled [OF Scheduled] by simp
    qed
  next
    case (Threw e)
    then show ?thesis using Cons.prems by simp
  qed
qed

lemma timers_end:
  assumes "ks \<noteq> []" and "maxevents s - eventcnt s \<le> int (length ks)"
  shows "timers L rnd ks s \<noteq> Scheduled s'"
proof
  assume "timers L rnd ks s = Scheduled s'"
  then have "eventcnt s + int (length ks) \<le> eventcnt s'" "eventcnt s' < maxevents s"
    using timers_Scheduled [of L rnd ks s s'] assms(1) by simp_all
  then show False using assms(2) by simp
qed

lemma processLoop_stops:
  assumes "processLoop nol xs t = Inr t'" and "eventcnt t < eventcnt t'"
    and "maxevents t \<le> eventcnt t'"
  shows "processLoop nol (xs @ ys) t = Inr t'"
  using assms
proof (induction xs arbitrary: t)
  case Nil
  then show ?case by simp
next
  case (Cons h hs)
  let ?t1 = "(applyHit nol h t)\<lparr>eventcnt := eventcnt t + 1\<rparr>"
  from Cons.prems(1) show ?case
  proof (cases rule: processLoop_ConsE)
    case stop
    then show ?thesis
      by (simp add: processLoop_Cons present_def)
  next
    case applied
    have "eventcnt ?t1 < eventcnt t'"
      using applied(2) Cons.prems(3) by simp
    then have "processLoop nol (hs @ ys) ?t1 = Inr t'"
      using Cons.IH [of ?t1] applied(3) Cons.prems(3) by simp
    then show ?thesis
      using applied by (simp add: processLoop_Cons present_def)
  next
    case skipped
    then have "processLoop nol (hs @ ys) t = Inr t'"
      using Cons.IH [of t] Cons.prems by simp
    moreover have "hit_r h < length (rules t)"
      using Cons.prems(1) by (auto simp: processLoop_Cons split: if_splits)
    ultimately show ?thesis
      using skipped by (simp add: processLoop_Cons present_def)
  qed
qed

lemma run_fields [simp]:
  "eventcnt (run rs init ro eo N) = 0" "maxevents (run rs init ro eo N) = N"
  "finished (run rs init ro eo N) = 0" "step (run rs init ro eo N) = 0"
  "rules (run rs init ro eo N) = rs" "length (causal (run rs init ro eo N)) = 1"
  "matches (run rs init ro eo N) = []" "progress (run rs init ro eo N) = []"
  by (simp_all add: run_def rewrite_causal_def)

subsection \<open>A safe run ends with the finished callback\<close>

lemma rule_hits_total:
  assumes "concat (lhs ru) \<noteq> []"
  shows "\<exists>hs. rule_hits g e i ru = Inr hs"
proof (cases "lhs ru")
  case Nil
  then show ?thesis using assms by simp
next
  case (Cons p0 ps)
  then show ?thesis
    using assms by (auto simp: rule_hits_def Let_def)
qed

lemma find_loop_total:
  assumes "\<forall>(e, i) \<in> set ps. i < length rs" and "\<forall>ru \<in> set rs. concat (lhs ru) \<noteq> []"
  shows "fst (find_loop g rs ps acc) = None"
  using assms
proof (induction g rs ps acc rule: find_loop.induct)
  case (1 graph rs acc)
  then show ?case by simp
next
  case (2 graph rs edge i rest acc)
  have "rs ! i \<in> set rs" using 2(2) by simp
  then obtain hs where hs: "rule_hits graph edge i (rs ! i) = Inr hs"
    using rule_hits_total 2(3) by blast
  then show ?case
    using 2 by simp
qed

lemma findMatches_total:
  assumes "list_all (\<lambda>ru. concat (lhs ru) \<noteq> []) (rules s)"
  shows "fst (findMatches g s) = None"
proof (cases "rules s = []")
  case True
  then show ?thesis by (simp add: findMatches_def)
next
  case False
  have "fst (find_loop g (rules s) (List.product (E g) [0..<length (rules s)]) []) = None"
    by (rule find_loop_total) (use assms in \<open>auto simp: list_all_iff\<close>)
  then show ?thesis
    using False by (simp add: findMatches_def Let_def)
qed

lemma attach_order_total:
  assumes "\<forall>v. lab v \<noteq> None"
  shows "\<exists>hs'. attach_order lab hs = Inr hs'"
proof (induction hs)
  case Nil
  then show ?case by simp
next
  case (Cons h hs)
  have "\<exists>k. order_key lab (hit_m h) = Inr k"
    using assms by (simp add: order_key_def)
  then show ?case
    using Cons by auto
qed

lemma event_order_total:
  assumes "eventordering s = ''random'' \<or> (\<forall>c v. L c v \<noteq> None)"
  shows "\<exists>s'. event_order L s = Inr s'"
proof (cases "eventordering s = ''random''")
  case True
  then show ?thesis by (simp add: event_order_def)
next
  case False
  then have "\<forall>v. L (causal s) v \<noteq> None" using assms by simp
  then obtain hs where "attach_order (L (causal s)) (matches s) = Inr hs"
    using attach_order_total by blast
  then show ?thesis
    using False by (simp add: event_order_def)
qed

lemma round_total:
  assumes "safe L s"
  shows "\<exists>brk s'. round L rnd s = Inr (brk, s')"
proof -
  let ?s1 = "s\<lparr>step := step s + 1\<rparr>"
  let ?s2 = "snd (findMatches (spatial s) ?s1)"
  let ?s2' = "?s2\<lparr>matches := shuffle (rnd (step s + 1)) (matches ?s2)\<rparr>"
  have none: "fst (findMatches (spatial s) ?s1) = None"
    using assms by (intro findMatches_total) (simp add: safe_def)
  show ?thesis
  proof (cases "matches ?s2 = []")
    case True
    then show ?thesis using none by (auto simp: round_unfold)
  next
    case False
    obtain s3 where s3: "event_order L ?s2' = Inr s3"
      using event_order_total [of ?s2' L] assms by (auto simp: safe_def)
    have p2: "\<forall>h \<in> set (matches ?s2'). present (spatial s) (rules s) h"
      using findMatches_present [of "spatial s" ?s1] by simp
    have "\<forall>h \<in> set (matches s3). present (spatial s) (rules s) h"
      using event_order_present [OF s3 p2] by simp
    moreover have "rules s3 = rules s"
      using event_order_fields [OF s3] by simp
    ultimately have "\<forall>h \<in> set (matches (rule_order s3)). hit_r h < length (rules (rule_order s3))"
      by (simp add: present_def)
    then obtain s4 where "processMatches (rule_order s3) = Inr s4"
      unfolding processMatches_def using processLoop_total by blast
    then show ?thesis
      using none False s3 by (simp add: round_unfold)
  qed
qed

lemma safe_advanced: "advanced s s' \<Longrightarrow> safe L s \<Longrightarrow> safe L s'"
  by (simp add: advanced_def safe_def)

lemma slice_total:
  assumes "safe L s"
  shows "\<exists>s'. slice_loop L rnd k s = Inr s'"
  using assms
proof (induction k arbitrary: s)
  case 0
  then show ?case using round_total [of L s rnd] by auto
next
  case (Suc k)
  obtain brk s1 where r: "round L rnd s = Inr (brk, s1)"
    using round_total [OF Suc.prems] by blast
  have "safe L s1"
    using round_advanced(1) [OF r] Suc.prems by (rule safe_advanced)
  then obtain s' where "slice_loop L rnd k s1 = Inr s'"
    using Suc.IH by blast
  then show ?case using r by simp
qed

lemma rewrite_total:
  assumes "safe L s"
  shows "rewrite L rnd k s \<noteq> Threw e"
proof -
  obtain s1 where "slice_loop L rnd k s = Inr s1"
    using slice_total [OF assms] by blast
  then show ?thesis by (simp add: rewrite_def Let_def)
qed

lemma rewrite_safe:
  assumes "rewrite L rnd k s = Scheduled s'" and "safe L s"
  shows "safe L s'"
proof -
  obtain s1 where s1: "slice_loop L rnd k s = Inr s1"
    using slice_total [OF assms(2)] by blast
  then have "s' = s1\<lparr>progress := progress s1 @ [eventcnt s1], matches := []\<rparr>"
    using assms(1) by (auto simp: rewrite_def Let_def split: if_splits)
  moreover have "safe L s1"
    using slice_advanced [OF s1] assms(2) by (rule safe_advanced)
  ultimately show ?thesis by (simp add: safe_def)
qed

lemma timers_total:
  assumes "safe L s"
  shows "timers L rnd ks s \<noteq> Threw e"
  using assms
proof (induction ks arbitrary: s)
  case Nil
  then show ?case by simp
next
  case (Cons k ks)
  show ?case
  proof (cases "rewrite L rnd k s")
    case (Finished s1)
    then show ?thesis by simp
  next
    case (Scheduled s1)
    then have "safe L s1" using rewrite_safe Cons.prems by blast
    then show ?thesis using Cons.IH Scheduled by simp
  next
    case (Threw e')
    then show ?thesis using rewrite_total [OF Cons.prems] by simp
  qed
qed

lemma timers_finish:
  assumes "safe L s" and "ks \<noteq> []" and "maxevents s - eventcnt s \<le> int (length ks)"
  shows "\<exists>s'. timers L rnd ks s = Finished s'"
proof (cases "timers L rnd ks s")
  case (Finished s')
  then show ?thesis by simp
next
  case (Scheduled s')
  then show ?thesis using timers_end [OF assms(2,3)] by simp
next
  case (Threw e)
  then show ?thesis using timers_total [OF assms(1)] by simp
qed

subsection \<open>Every hit is validated against the graph as the hits before it left it\<close>

lemma processLoop_append:
  assumes "processLoop nol xs s = Inr s1"
    and "eventcnt s1 = eventcnt s \<or> eventcnt s1 < maxevents s"
  shows "processLoop nol (xs @ ys) s = processLoop nol ys s1"
  using assms
proof (induction xs arbitrary: s)
  case Nil
  then show ?case by simp
next
  case (Cons h hs)
  let ?t = "(applyHit nol h s)\<lparr>eventcnt := eventcnt s + 1\<rparr>"
  from Cons.prems(1) show ?case
  proof (cases rule: processLoop_ConsE)
    case stop
    then show ?thesis using Cons.prems(2) by simp
  next
    case applied
    have "eventcnt ?t \<le> eventcnt s1"
      using processLoop_counter [OF applied(3)] by simp
    then have "eventcnt s1 < maxevents ?t"
      using Cons.prems(2) by simp
    then have "processLoop nol (hs @ ys) ?t = processLoop nol ys s1"
      using Cons.IH [of ?t] applied(3) by simp
    then show ?thesis
      using applied by (simp add: processLoop_Cons present_def)
  next
    case skipped
    have "eventcnt s1 = eventcnt s \<or> eventcnt s1 < maxevents s"
      using Cons.prems(2) .
    then have "processLoop nol (hs @ ys) s = processLoop nol ys s1"
      using Cons.IH [of s] skipped(2) by simp
    moreover have "hit_r h < length (rules s)"
      using Cons.prems(1) by (auto simp: processLoop_Cons split: if_splits)
    ultimately show ?thesis
      using skipped by (simp add: processLoop_Cons present_def)
  qed
qed

text \<open>
  C1. Every hit of the match list is validated at its turn, against the hypergraph as
  the hits before it have left it. Let the hits \<open>xs\<close> before the hit \<open>h\<close> have been
  processed without reaching the budget, leaving the state \<open>s1\<close>. If the full
  left-hand side of the rule of \<open>h\<close>, substituted under its assignment, has count
  zero in the graph of \<open>s1\<close>, then \<open>h\<close> is skipped: the state stays \<open>s1\<close> (no
  rewrite, no causal event, no increment of the counter) and the result of the whole
  list is that of the list without \<open>h\<close>. The hit is applied, with the counter
  incremented by one, only if that count is at least one, and the hits behind it are
  then processed from the rewritten state unless the budget is reached.
\<close>

theorem revalidation:
  assumes before: "processLoop nol xs s = Inr s1"
    and reached: "eventcnt s1 = eventcnt s \<or> eventcnt s1 < maxevents s"
    and inside: "hit_r h < length (rules s)"
  shows "(count_edges (spatial s1) (mapper (spatial s1) (lhs (rules s ! hit_r h)) (hit_m h)) = 0
            \<longrightarrow> processLoop nol (xs @ [h]) s = Inr s1
              \<and> processLoop nol (xs @ h # ys) s = processLoop nol (xs @ ys) s)
     \<and> (processLoop nol (xs @ [h]) s \<noteq> Inr s1
            \<longrightarrow> 1 \<le> count_edges (spatial s1) (mapper (spatial s1) (lhs (rules s ! hit_r h)) (hit_m h)))
     \<and> (1 \<le> count_edges (spatial s1) (mapper (spatial s1) (lhs (rules s ! hit_r h)) (hit_m h))
            \<longrightarrow> processLoop nol (xs @ [h]) s = Inr ((applyHit nol h s1)\<lparr>eventcnt := eventcnt s1 + 1\<rparr>)
              \<and> processLoop nol (xs @ h # ys) s
                  = (if maxevents s \<le> eventcnt s1 + 1
                     then Inr ((applyHit nol h s1)\<lparr>eventcnt := eventcnt s1 + 1\<rparr>)
                     else processLoop nol ys ((applyHit nol h s1)\<lparr>eventcnt := eventcnt s1 + 1\<rparr>)))"
proof -
  let ?c = "count_edges (spatial s1) (mapper (spatial s1) (lhs (rules s ! hit_r h)) (hit_m h))"
  let ?s2 = "(applyHit nol h s1)\<lparr>eventcnt := eventcnt s1 + 1\<rparr>"
  have same: "rules s1 = rules s" "maxevents s1 = maxevents s"
    using processLoop_fields [OF before] by simp_all
  have turn: "processLoop nol (xs @ zs) s = processLoop nol zs s1" for zs
    by (rule processLoop_append [OF before reached])
  have absent: "processLoop nol (h # zs) s1 = processLoop nol zs s1" if "?c = 0" for zs
    using that inside same by (simp add: processLoop_Cons)
  have applied: "processLoop nol (h # zs) s1
      = (if maxevents s \<le> eventcnt s1 + 1 then Inr ?s2 else processLoop nol zs ?s2)"
    if "1 \<le> ?c" for zs
    using that inside same by (simp add: processLoop_Cons)
  have a: "processLoop nol (xs @ [h]) s = Inr s1
      \<and> processLoop nol (xs @ h # ys) s = processLoop nol (xs @ ys) s" if "?c = 0"
    using turn [of "[h]"] turn [of "h # ys"] turn [of ys] absent [OF that, of "[]"]
      absent [OF that, of ys] by simp
  have b: "processLoop nol (xs @ [h]) s = Inr ?s2
      \<and> processLoop nol (xs @ h # ys) s
          = (if maxevents s \<le> eventcnt s1 + 1 then Inr ?s2 else processLoop nol ys ?s2)"
    if "1 \<le> ?c"
    using turn [of "[h]"] turn [of "h # ys"] applied [OF that, of "[]"] applied [OF that, of ys]
    by simp
  have c: "1 \<le> ?c" if "processLoop nol (xs @ [h]) s \<noteq> Inr s1"
  proof (rule ccontr)
    assume "\<not> 1 \<le> ?c"
    then have "?c = 0" by simp
    then show False using a that by simp
  qed
  show ?thesis using a b c by blast
qed

theorem revalidation_witness:
  "1 \<le> count_edges (spatial ((run [readme_rule] readme_initial ''mixed'' ''random'' 5)\<lparr>step := 1\<rparr>))
        (mapper (spatial ((run [readme_rule] readme_initial ''mixed'' ''random'' 5)\<lparr>step := 1\<rparr>))
          (lhs readme_rule) [2, 3, 3, 4])
   \<and> processLoop (rulesNol [readme_rule])
        [\<lparr>hit_r = 0, hit_m = [1, 2, 2, 3], hit_order = None\<rparr>]
        ((run [readme_rule] readme_initial ''mixed'' ''random'' 5)\<lparr>step := 1\<rparr>) = Inr after_first
   \<and> count_edges (spatial after_first)
        (mapper (spatial after_first) (lhs readme_rule) [2, 3, 3, 4]) = 0
   \<and> processLoop (rulesNol [readme_rule])
        ([\<lparr>hit_r = 0, hit_m = [1, 2, 2, 3], hit_order = None\<rparr>]
          @ [\<lparr>hit_r = 0, hit_m = [2, 3, 3, 4], hit_order = None\<rparr>])
        ((run [readme_rule] readme_initial ''mixed'' ''random'' 5)\<lparr>step := 1\<rparr>) = Inr after_first
   \<and> processLoop (rulesNol [readme_rule])
        ([] @ [\<lparr>hit_r = 0, hit_m = [1, 2, 2, 3], hit_order = None\<rparr>])
        ((run [readme_rule] readme_initial ''mixed'' ''random'' 5)\<lparr>step := 1\<rparr>)
       \<noteq> Inr ((run [readme_rule] readme_initial ''mixed'' ''random'' 5)\<lparr>step := 1\<rparr>)"
proof -
  let ?s = "(run [readme_rule] readme_initial ''mixed'' ''random'' 5)\<lparr>step := 1\<rparr>"
  let ?nol = "rulesNol [readme_rule]"
  let ?A = "\<lparr>hit_r = 0, hit_m = [1, 2, 2, 3], hit_order = None\<rparr>"
  let ?B = "\<lparr>hit_r = 0, hit_m = [2, 3, 3, 4], hit_order = None\<rparr>"
  have rs: "rules ?s = [readme_rule]"
    by (simp add: run_def)
  have found: "1 \<le> count_edges (spatial ?s) (mapper (spatial ?s) (lhs readme_rule) [2, 3, 3, 4])"
    by code_simp
  have before: "processLoop ?nol [?A] ?s = Inr after_first"
    by code_simp
  have reached: "eventcnt after_first = eventcnt ?s \<or> eventcnt after_first < maxevents ?s"
    by (simp add: after_first_def run_def)
  have inside: "hit_r ?B < length (rules ?s)" "hit_r ?A < length (rules ?s)"
    by (simp_all add: rs)
  have gone: "count_edges (spatial after_first)
      (mapper (spatial after_first) (lhs readme_rule) [2, 3, 3, 4]) = 0"
    by code_simp
  have start: "processLoop ?nol [] ?s = Inr ?s" "eventcnt ?s = eventcnt ?s \<or> eventcnt ?s < maxevents ?s"
    by simp_all
  have changed: "processLoop ?nol ([] @ [?A]) ?s \<noteq> Inr ?s"
    using before by (simp add: after_first_def run_def)
  show ?thesis
    using revalidation [OF before reached inside(1), of "[]"] gone found before
      revalidation [OF start inside(2), of "[]"] changed
    by (simp add: rs)
qed

text \<open>
  C2. For a run with the event budget \<open>maxEvents = N\<close> of at least one, the event
  counter at the call of the finished callback is at most \<open>N\<close>, and it is less than
  \<open>N\<close> only if the Match Finder finds no hit in the final hypergraph; the finished
  callback is called once, after the progress callback got the final count. A timer
  that gets to start \<open>N\<close> slices does not leave a slice pending, and when the run
  is safe it ends with the finished callback. Within a round the
  Match Processor stops as soon as an applied hit brings the counter to the budget:
  the hits behind it in the list do not matter.
\<close>

theorem event_budget:
  assumes "1 \<le> N"
  shows "(timers L rnd ks (run rs init ro eo N) = Finished s
            \<longrightarrow> eventcnt s \<le> N \<and> (eventcnt s < N \<longrightarrow> exhausted s)
              \<and> finished s = 1 \<and> last (progress s) = eventcnt s)
     \<and> (N \<le> int (length ks) \<longrightarrow> timers L rnd ks (run rs init ro eo N) \<noteq> Scheduled s
            \<and> (safe L (run rs init ro eo N)
                  \<longrightarrow> (\<exists>s'. timers L rnd ks (run rs init ro eo N) = Finished s')))
     \<and> (processLoop nol xs t = Inr t' \<and> eventcnt t < eventcnt t' \<and> maxevents t \<le> eventcnt t'
            \<longrightarrow> processLoop nol (xs @ ys) t = Inr t')"
proof -
  let ?s0 = "run rs init ro eo N"
  have a: "eventcnt s \<le> N \<and> (eventcnt s < N \<longrightarrow> exhausted s)
      \<and> finished s = 1 \<and> last (progress s) = eventcnt s"
    if "timers L rnd ks ?s0 = Finished s"
    using timers_Finished [OF that] assms by simp
  have b: "timers L rnd ks ?s0 \<noteq> Scheduled s
      \<and> (safe L ?s0 \<longrightarrow> (\<exists>s'. timers L rnd ks ?s0 = Finished s'))"
    if enough: "N \<le> int (length ks)"
  proof -
    have ks: "ks \<noteq> []" using enough assms by auto
    have len: "maxevents ?s0 - eventcnt ?s0 \<le> int (length ks)" using enough by simp
    show ?thesis
      using timers_end [OF ks len] timers_finish [OF _ ks len] by blast
  qed
  have c: "processLoop nol (xs @ ys) t = Inr t'"
    if "processLoop nol xs t = Inr t' \<and> eventcnt t < eventcnt t' \<and> maxevents t \<le> eventcnt t'"
    using that processLoop_stops by blast
  show ?thesis
    using a b c by blast
qed

theorem event_budget_witness:
  "(1 :: int) \<le> 1
   \<and> safe example_ranks (run [readme_rule] readme_initial ''mixed'' ''random'' 1)
   \<and> timers example_ranks draw_first [0, 0]
        (run [readme_rule] readme_initial ''mixed'' ''random'' 1) = Finished (readme_final 1)
   \<and> eventcnt (readme_final 1) \<le> 1 \<and> finished (readme_final 1) = 1
   \<and> processLoop (rulesNol [readme_rule])
        ([\<lparr>hit_r = 0, hit_m = [2, 3, 3, 4], hit_order = None\<rparr>]
          @ [\<lparr>hit_r = 0, hit_m = [1, 2, 2, 3], hit_order = None\<rparr>])
        ((run [readme_rule] readme_initial ''mixed'' ''random'' 1)\<lparr>step := 1\<rparr>)
      = Inr ((readme_final 1)\<lparr>progress := [], finished := 0\<rparr>)"
proof -
  let ?s0 = "run [readme_rule] readme_initial ''mixed'' ''random'' 1"
  let ?t = "?s0\<lparr>step := 1\<rparr>"
  let ?t' = "(readme_final 1)\<lparr>progress := [], finished := 0\<rparr>"
  have n: "(1 :: int) \<le> 1" by simp
  have ok: "safe example_ranks ?s0"
    by (simp add: safe_def run_def readme_rule_def)
  have fin: "timers example_ranks draw_first [0, 0] ?s0 = Finished (readme_final 1)"
    by code_simp
  have loop: "processLoop (rulesNol [readme_rule])
      [\<lparr>hit_r = 0, hit_m = [2, 3, 3, 4], hit_order = None\<rparr>] ?t = Inr ?t'"
    by code_simp
  have cnt: "eventcnt ?t < eventcnt ?t'" "maxevents ?t \<le> eventcnt ?t'"
    by (simp_all add: readme_final_def)
  show ?thesis
    using event_budget [OF n, of example_ranks draw_first "[0, 0]" "[readme_rule]"
        readme_initial "''mixed''" "''random''" "readme_final 1" "rulesNol [readme_rule]"
        "[\<lparr>hit_r = 0, hit_m = [2, 3, 3, 4], hit_order = None\<rparr>]" ?t ?t'
        "[\<lparr>hit_r = 0, hit_m = [1, 2, 2, 3], hit_order = None\<rparr>]"]
      ok fin loop cnt
    by simp
qed

text \<open>With the budget \<open>0\<close> the run of the README example calls the finished callback
  with the counter at \<open>1\<close>, which exceeds the budget and so is not the minimum of the
  budget and any number.\<close>

theorem event_budget_counterexample:
  "timers example_ranks draw_first [0]
      (run [readme_rule] readme_initial ''mixed'' ''random'' 0) = Finished (readme_final 0)
   \<and> \<not> eventcnt (readme_final 0) \<le> maxevents (readme_final 0)"
  by code_simp

text \<open>
  C9. The budget is tested after the counter is incremented. A run started with
  \<open>maxEvents = 0\<close> in whose initial hypergraph the Match Finder finds a hit, and whose
  first slice throws no exception, applies exactly one event in its first round and
  calls the finished callback with the counter at \<open>1\<close>. For \<open>maxEvents\<close> of at least
  one the counter does not exceed \<open>maxEvents\<close>, whether the run has finished or a
  slice is pending.
\<close>

theorem post_increment_budget:
  "(\<not> exhausted (run rs init ro eo 0) \<and> (\<forall>e. rewrite L rnd k (run rs init ro eo 0) \<noteq> Threw e)
      \<longrightarrow> (\<exists>s. rewrite L rnd k (run rs init ro eo 0) = Finished s
             \<and> eventcnt s = 1 \<and> step s = 1 \<and> length (causal s) = 2 \<and> finished s = 1))
   \<and> (1 \<le> N \<and> (timers L rnd ks (run rs init ro eo N) = Finished s
                \<or> timers L rnd ks (run rs init ro eo N) = Scheduled s)
      \<longrightarrow> eventcnt s \<le> N)"
proof -
  let ?s0 = "run rs init ro eo 0"
  have zero: "\<exists>s. rewrite L rnd k ?s0 = Finished s
             \<and> eventcnt s = 1 \<and> step s = 1 \<and> length (causal s) = 2 \<and> finished s = 1"
    if hits: "\<not> exhausted ?s0" and nothrow: "\<forall>e. rewrite L rnd k ?s0 \<noteq> Threw e"
  proof -
    obtain s1 where s1: "slice_loop L rnd k ?s0 = Inr s1"
      using nothrow by (cases "slice_loop L rnd k ?s0") (auto simp: rewrite_def)
    then obtain brk sr where r: "round L rnd ?s0 = Inr (brk, sr)"
      by (cases k) (auto split: sum.splits)
    have adv: "advanced ?s0 sr" by (rule round_advanced(1) [OF r])
    then have cnt: "eventcnt sr = 1"
      using hits by (simp add: advanced_def)
    then have brk using round_advanced(2) [OF r] adv by (simp add: advanced_def)
    then have "s1 = sr"
      using s1 r by (cases k) auto
    then have "rewrite L rnd k ?s0
        = Finished (sr\<lparr>progress := progress sr @ [eventcnt sr], matches := [],
            finished := finished sr + 1\<rparr>)"
      using s1 cnt adv by (simp add: rewrite_def Let_def advanced_def)
    moreover have "step sr = 1" using round_step [OF r] by simp
    moreover have "length (causal sr) = 2" "finished sr = 0"
      using adv cnt by (simp_all add: advanced_def)
    ultimately show ?thesis using cnt by simp
  qed
  have pos: "eventcnt s \<le> N"
    if n: "1 \<le> N" and t: "timers L rnd ks (run rs init ro eo N) = Finished s
        \<or> timers L rnd ks (run rs init ro eo N) = Scheduled s"
  proof -
    from t show ?thesis
    proof
      assume f: "timers L rnd ks (run rs init ro eo N) = Finished s"
      show ?thesis using timers_Finished [OF f] n by simp
    next
      assume w: "timers L rnd ks (run rs init ro eo N) = Scheduled s"
      show ?thesis
        using timers_Scheduled [OF w] w n by (cases ks) auto
    qed
  qed
  show ?thesis using zero pos by blast
qed

theorem post_increment_budget_witness:
  "\<not> exhausted (run [readme_rule] readme_initial ''mixed'' ''random'' 0)
   \<and> rewrite example_ranks draw_first 0
        (run [readme_rule] readme_initial ''mixed'' ''random'' 0) = Finished (readme_final 0)
   \<and> eventcnt (readme_final 0) = 1 \<and> step (readme_final 0) = 1
   \<and> length (causal (readme_final 0)) = 2
   \<and> timers example_ranks draw_first [0, 0]
        (run [readme_rule] readme_initial ''mixed'' ''random'' 1) = Finished (readme_final 1)
   \<and> eventcnt (readme_final 1) \<le> 1"
proof -
  let ?s0 = "run [readme_rule] readme_initial ''mixed'' ''random'' 0"
  have hits: "\<not> exhausted ?s0"
    by code_simp
  have fin0: "rewrite example_ranks draw_first 0 ?s0 = Finished (readme_final 0)"
    by code_simp
  then have nothrow: "\<forall>e. rewrite example_ranks draw_first 0 ?s0 \<noteq> Threw e"
    by simp
  have fin1: "timers example_ranks draw_first [0, 0]
      (run [readme_rule] readme_initial ''mixed'' ''random'' 1) = Finished (readme_final 1)"
    by code_simp
  show ?thesis
    using post_increment_budget [where rs = "[readme_rule]" and init = readme_initial
        and ro = "''mixed''" and eo = "''random''" and L = example_ranks and rnd = draw_first
        and k = 0 and N = 1 and ks = "[0, 0]" and s = "readme_final 1"]
      hits fin0 nothrow fin1
    by auto
qed

end
